theory Spec2Isabelle
  imports Main "HOL-Library.AList" "HOL-Library.Multiset"
begin

section \<open>Values, objects and the store\<close>

text \<open>
  gunderscore.js works on JavaScript values. A primitive value is held directly; an
  array, a String object or a plain object lives in the store and a value refers to it
  by its address, so that two references to one array see each other's writes.

  Numbers are the two infinities, NaN and the finite numbers; the finite numbers of the
  model are the integers (no fractions, no negative zero).
\<close>

datatype jsnum = NaN | NegInf | Fin int | PosInf

datatype val = Undefined | Null | Bool bool | Num jsnum | Str string | Ref nat

text \<open>
  \<open>Array xs\<close> is a contiguous array (no holes), \<open>StringObj s\<close> is \<open>new String(s)\<close>,
  \<open>Object kvs\<close> is a plain object: its own enumerable properties, in the order in which
  \<open>for (key in obj)\<close> enumerates them, each key once.
\<close>

datatype obj = Array "val list" | StringObj string | Object "(string \<times> val) list"

type_synonym heap = "obj list"

text \<open>
  \<open>TypeError\<close> is the exception JavaScript throws when \<open>undefined\<close> or \<open>null\<close> is
  dereferenced or when a value that is not a function is called. \<open>Unsupported\<close> marks a run
  that leaves the fragment of JavaScript covered here: a property key or a number taken
  from a string or from an object, a non-index property of an array or of a primitive, a
  property inherited from \<open>Object.prototype\<close>, a loop without end.
\<close>

datatype error = TypeError | Unsupported

type_synonym 'a res = "error + 'a"

definition lookup :: "heap \<Rightarrow> nat \<Rightarrow> obj option" where
  "lookup h a = (if a < length h then Some (h ! a) else None)"

definition alloc :: "obj \<Rightarrow> heap \<Rightarrow> nat \<times> heap" where
  "alloc ob h = (length h, h @ [ob])"

definition num :: "nat \<Rightarrow> val" where
  "num n = Num (Fin (int n))"

subsection \<open>Property reads\<close>

definition digit_char :: "nat \<Rightarrow> char" where
  "digit_char d = ''0123456789'' ! d"

function string_of_nat :: "nat \<Rightarrow> string" where
  "string_of_nat n =
     (if n < 10 then [digit_char n] else string_of_nat (n div 10) @ [digit_char (n mod 10)])"
  by pat_completeness auto
termination
  by (relation "measure id") auto

declare string_of_nat.simps [simp del]

definition char_at :: "string \<Rightarrow> nat \<Rightarrow> val" where
  "char_at s i = (if i < length s then Str [s ! i] else Undefined)"

text \<open>The elements of an indexed object, as \<open>coll[0]\<close>, \<open>coll[1]\<close>, ... read them.\<close>

fun seq_items :: "obj \<Rightarrow> val list" where
  "seq_items (Array xs) = xs"
| "seq_items (StringObj s) = map (\<lambda>c. Str [c]) s"
| "seq_items (Object kvs) = []"

text \<open>\<open>v[i]\<close> for a non-negative integer \<open>i\<close>.\<close>

fun index_get :: "heap \<Rightarrow> val \<Rightarrow> nat \<Rightarrow> val res" where
  "index_get h Undefined i = Inl TypeError"
| "index_get h Null i = Inl TypeError"
| "index_get h (Bool b) i = Inr Undefined"
| "index_get h (Num n) i = Inr Undefined"
| "index_get h (Str s) i = Inr (char_at s i)"
| "index_get h (Ref a) i =
     (case lookup h a of
        None \<Rightarrow> Inl TypeError
      | Some (Array xs) \<Rightarrow> Inr (if i < length xs then xs ! i else Undefined)
      | Some (StringObj s) \<Rightarrow> Inr (char_at s i)
      | Some (Object kvs) \<Rightarrow>
          Inr (case map_of kvs (string_of_nat i) of Some v \<Rightarrow> v | None \<Rightarrow> Undefined))"

text \<open>\<open>v.length\<close>.\<close>

fun length_get :: "heap \<Rightarrow> val \<Rightarrow> val res" where
  "length_get h Undefined = Inl TypeError"
| "length_get h Null = Inl TypeError"
| "length_get h (Bool b) = Inr Undefined"
| "length_get h (Num n) = Inr Undefined"
| "length_get h (Str s) = Inr (num (length s))"
| "length_get h (Ref a) =
     (case lookup h a of
        None \<Rightarrow> Inl TypeError
      | Some (Array xs) \<Rightarrow> Inr (num (length xs))
      | Some (StringObj s) \<Rightarrow> Inr (num (length s))
      | Some (Object kvs) \<Rightarrow>
          Inr (case map_of kvs ''length'' of Some v \<Rightarrow> v | None \<Rightarrow> Undefined))"

text \<open>
  The number of rounds of \<open>for ( ; i < len; i++)\<close> started at \<open>i = 0\<close>: \<open>len\<close> is turned
  into a number, and \<open>undefined\<close> becomes NaN, which is greater than no \<open>i\<close>.
\<close>

fun loop_bound :: "val \<Rightarrow> nat res" where
  "loop_bound Undefined = Inr 0"
| "loop_bound Null = Inr 0"
| "loop_bound (Bool b) = Inr (if b then 1 else 0)"
| "loop_bound (Num NaN) = Inr 0"
| "loop_bound (Num NegInf) = Inr 0"
| "loop_bound (Num (Fin n)) = Inr (nat n)"
| "loop_bound (Num PosInf) = Inl Unsupported"
| "loop_bound (Str s) = Inl Unsupported"
| "loop_bound (Ref a) = Inl Unsupported"

subsection \<open>Predicates\<close>

text \<open>
  \<^verbatim>\<open>isArray(obj) = obj instanceof Array\<close>, \<^verbatim>\<open>isString(obj) = obj instanceof String\<close>
  (false of a primitive string), \<^verbatim>\<open>isIndexed(obj) = isArray(obj) || isString(obj)\<close>,
  \<^verbatim>\<open>isObject(obj) = obj instanceof Object\<close>.
\<close>

definition isArray :: "heap \<Rightarrow> val \<Rightarrow> bool" where
  "isArray h v = (case v of Ref a \<Rightarrow> (case lookup h a of Some (Array xs) \<Rightarrow> True | _ \<Rightarrow> False)
                  | _ \<Rightarrow> False)"

definition isString :: "heap \<Rightarrow> val \<Rightarrow> bool" where
  "isString h v = (case v of Ref a \<Rightarrow> (case lookup h a of Some (StringObj s) \<Rightarrow> True | _ \<Rightarrow> False)
                   | _ \<Rightarrow> False)"

definition isIndexed :: "heap \<Rightarrow> val \<Rightarrow> bool" where
  "isIndexed h v = (isArray h v \<or> isString h v)"

definition isObject :: "heap \<Rightarrow> val \<Rightarrow> bool" where
  "isObject h v = (case v of Ref a \<Rightarrow> (case lookup h a of Some ob \<Rightarrow> True | None \<Rightarrow> False)
                   | _ \<Rightarrow> False)"

subsection \<open>Calls, tests, property reads and writes\<close>

text \<open>Sequencing: the second step runs only when the first did not throw.\<close>

definition and_then :: "'a res \<times> heap \<Rightarrow> ('a \<Rightarrow> heap \<Rightarrow> 'b res \<times> heap) \<Rightarrow> 'b res \<times> heap" where
  "and_then m f = (case m of (Inl err, h) \<Rightarrow> (Inl err, h) | (Inr v, h) \<Rightarrow> f v h)"

text \<open>
  A function of the caller, of one argument and of three: it may read and write the
  store and throw.
\<close>

type_synonym callback = "val \<Rightarrow> heap \<Rightarrow> val res \<times> heap"

type_synonym callback3 = "val \<Rightarrow> val \<Rightarrow> val \<Rightarrow> heap \<Rightarrow> val res \<times> heap"

text \<open>What \<open>if (v)\<close> and \<open>!v\<close> take for true.\<close>

fun truthy :: "val \<Rightarrow> bool" where
  "truthy Undefined = False"
| "truthy Null = False"
| "truthy (Bool b) = b"
| "truthy (Num n) = (n \<noteq> NaN \<and> n \<noteq> Fin 0)"
| "truthy (Str s) = (s \<noteq> [])"
| "truthy (Ref a) = True"

text \<open>\<open>x === y\<close>: NaN equals nothing, objects are compared by identity.\<close>

definition strict_eq :: "val \<Rightarrow> val \<Rightarrow> bool" where
  "strict_eq x y = (x = y \<and> x \<noteq> Num NaN)"

text \<open>\<open>result.push(v)\<close> on the array at address \<open>r\<close>.\<close>

definition push :: "nat \<Rightarrow> val \<Rightarrow> heap \<Rightarrow> unit res \<times> heap" where
  "push r v h =
     (case lookup h r of
        Some (Array xs) \<Rightarrow> (Inr (), h[r := Array (xs @ [v])])
      | _ \<Rightarrow> (Inl TypeError, h))"

text \<open>
  The own enumerable properties that \<open>for (key in v)\<close> goes through, with their
  values: the indices of an array or a string, the properties of a plain object, nothing
  for \<open>undefined\<close>, \<open>null\<close>, a number or a boolean.
\<close>

fun own_props_obj :: "obj \<Rightarrow> (string \<times> val) list" where
  "own_props_obj (Array xs) = zip (map string_of_nat [0..<length xs]) xs"
| "own_props_obj (StringObj s) = zip (map string_of_nat [0..<length s]) (map (\<lambda>c. Str [c]) s)"
| "own_props_obj (Object kvs) = kvs"

fun own_props :: "heap \<Rightarrow> val \<Rightarrow> (string \<times> val) list" where
  "own_props h (Ref a) = (case lookup h a of Some ob \<Rightarrow> own_props_obj ob | None \<Rightarrow> [])"
| "own_props h (Str s) = own_props_obj (StringObj s)"
| "own_props h v = []"

text \<open>The names every plain object inherits from \<open>Object.prototype\<close>.\<close>

definition object_prototype_keys :: "string list" where
  "object_prototype_keys =
     [''constructor'', ''toString'', ''toLocaleString'', ''valueOf'', ''hasOwnProperty'',
      ''isPrototypeOf'', ''propertyIsEnumerable'', ''__proto__'', ''__defineGetter__'',
      ''__defineSetter__'', ''__lookupGetter__'', ''__lookupSetter__'']"

text \<open>\<open>kvs[k]\<close> on the properties of a plain object: an own property first, then the prototype.\<close>

definition named_of :: "(string \<times> val) list \<Rightarrow> string \<Rightarrow> val res" where
  "named_of kvs k =
     (case map_of kvs k of
        Some v \<Rightarrow> Inr v
      | None \<Rightarrow> if k \<in> set object_prototype_keys then Inl Unsupported else Inr Undefined)"

text \<open>\<open>v[k]\<close> for a key \<open>k\<close> that is a string.\<close>

fun get_named :: "heap \<Rightarrow> val \<Rightarrow> string \<Rightarrow> val res" where
  "get_named h Undefined k = Inl TypeError"
| "get_named h Null k = Inl TypeError"
| "get_named h (Ref a) k =
     (case lookup h a of
        None \<Rightarrow> Inl TypeError
      | Some (Object kvs) \<Rightarrow> named_of kvs k
      | Some ob \<Rightarrow> Inl Unsupported)"
| "get_named h v k = Inl Unsupported"

text \<open>
  \<open>v[key]\<close> for a number that is no index (negative, infinite or NaN): no array, string,
  number or boolean has a property of that name.
\<close>

fun absent_get :: "heap \<Rightarrow> val \<Rightarrow> val res" where
  "absent_get h Undefined = Inl TypeError"
| "absent_get h Null = Inl TypeError"
| "absent_get h (Ref a) =
     (case lookup h a of
        None \<Rightarrow> Inl TypeError
      | Some (Object kvs) \<Rightarrow> Inl Unsupported
      | Some ob \<Rightarrow> Inr Undefined)"
| "absent_get h v = Inr Undefined"

text \<open>\<open>v[key]\<close>: the receiver is checked before the key is turned into a property name.\<close>

definition get_prop :: "heap \<Rightarrow> val \<Rightarrow> val \<Rightarrow> val res" where
  "get_prop h v key =
     (if v = Undefined \<or> v = Null then Inl TypeError
      else case key of
        Num (Fin n) \<Rightarrow> if 0 \<le> n then index_get h v (nat n) else absent_get h v
      | Num x \<Rightarrow> absent_get h v
      | Str s \<Rightarrow> get_named h v s
      | _ \<Rightarrow> Inl Unsupported)"

text \<open>
  \<open>result[k] = v\<close> on the plain object at address \<open>r\<close>: an own property keeps its place,
  a new one goes last.
\<close>

definition set_named :: "nat \<Rightarrow> string \<Rightarrow> val \<Rightarrow> heap \<Rightarrow> unit res \<times> heap" where
  "set_named r k v h =
     (case lookup h r of
        Some (Object kvs) \<Rightarrow>
          if k = ''__proto__'' then (Inl Unsupported, h)
          else (Inr (), h[r := Object (AList.update k v kvs)])
      | Some ob \<Rightarrow> (Inl Unsupported, h)
      | None \<Rightarrow> (Inl TypeError, h))"

text \<open>
  \<^verbatim>\<open>toArray(args) = Array.prototype.slice.call(args, 0)\<close>: a new array with the
  arguments of the call.
\<close>

definition toArray :: "val list \<Rightarrow> heap \<Rightarrow> val \<times> heap" where
  "toArray args h = (let (a, h') = alloc (Array args) h in (Ref a, h'))"

text \<open>
  A call \<open>f(args)\<close> where \<open>f\<close> is a value: the functions of this development are the
  callbacks, which are not values, so \<open>f\<close> is not a function and the call throws.
\<close>

definition call_value :: "val \<Rightarrow> val list \<Rightarrow> heap \<Rightarrow> val res \<times> heap" where
  "call_value f args h = (Inl TypeError, h)"

section \<open>Collection functions\<close>

subsection \<open>each\<close>

text \<open>
  \<^verbatim>\<open>
  var each = g_.each = function(coll, func) {
      var i = 0, keys, len;
      if ( isIndexed(coll) ) {
          len = coll.length;
          for ( ; i < len; i++) { func(coll[i], i); }
      } else {
          ks = keys(coll);
          len  = ks.length;
          for ( ; i < len; i++) { func(coll[ks[i]], i); }
      }
      return;
  };
  \<close>
  The callback is a closure: the variables it captures and assigns are its environment
  \<open>'e\<close>, passed in and returned; what it returns is dropped by \<open>each\<close>. \<open>len\<close> is read once,
  \<open>coll[i]\<close> in every round, from the store as it then is.

  In the \<open>else\<close> branch \<open>keys\<close> is the local variable that the \<open>var\<close> statement declares and
  never assigns, not the function \<open>keys\<close> of the library: its value is \<open>undefined\<close>, and the
  call \<open>keys(coll)\<close> is a call of \<open>undefined\<close>.
\<close>

type_synonym 'e visitor = "val \<Rightarrow> val \<Rightarrow> 'e \<Rightarrow> heap \<Rightarrow> 'e res \<times> heap"

function each_loop :: "val \<Rightarrow> 'e visitor \<Rightarrow> nat \<Rightarrow> nat \<Rightarrow> 'e \<Rightarrow> heap \<Rightarrow> 'e res \<times> heap" where
  "each_loop coll func i len e h =
     (if i < len then
        (case index_get h coll i of
           Inl err \<Rightarrow> (Inl err, h)
         | Inr item \<Rightarrow>
             (case func item (num i) e h of
                (Inl err, h') \<Rightarrow> (Inl err, h')
              | (Inr e', h') \<Rightarrow> each_loop coll func (Suc i) len e' h'))
      else (Inr e, h))"
  by pat_completeness auto
termination
  by (relation "measure (\<lambda>(coll, func, i, len, e, h). len - i)") auto

declare each_loop.simps [simp del]

function each_keys_loop ::
  "val \<Rightarrow> val \<Rightarrow> 'e visitor \<Rightarrow> nat \<Rightarrow> nat \<Rightarrow> 'e \<Rightarrow> heap \<Rightarrow> 'e res \<times> heap" where
  "each_keys_loop coll ks func i len e h =
     (if i < len then
        (case index_get h ks i of
           Inl err \<Rightarrow> (Inl err, h)
         | Inr k \<Rightarrow>
             (case get_prop h coll k of
                Inl err \<Rightarrow> (Inl err, h)
              | Inr item \<Rightarrow>
                  (case func item (num i) e h of
                     (Inl err, h') \<Rightarrow> (Inl err, h')
                   | (Inr e', h') \<Rightarrow> each_keys_loop coll ks func (Suc i) len e' h')))
      else (Inr e, h))"
  by pat_completeness auto
termination
  by (relation "measure (\<lambda>(coll, ks, func, i, len, e, h). len - i)") auto

declare each_keys_loop.simps [simp del]

definition each :: "val \<Rightarrow> 'e visitor \<Rightarrow> 'e \<Rightarrow> heap \<Rightarrow> 'e res \<times> heap" where
  "each coll func e h =
     (let keys = Undefined in
      if isIndexed h coll then
        (case length_get h coll of
           Inl err \<Rightarrow> (Inl err, h)
         | Inr len \<Rightarrow>
             (case loop_bound len of
                Inl err \<Rightarrow> (Inl err, h)
              | Inr n \<Rightarrow> each_loop coll func 0 n e h))
      else
        (case call_value keys [coll] h of
           (Inl err, h') \<Rightarrow> (Inl err, h')
         | (Inr ks, h') \<Rightarrow>
             (case length_get h' ks of
                Inl err \<Rightarrow> (Inl err, h')
              | Inr len \<Rightarrow>
                  (case loop_bound len of
                     Inl err \<Rightarrow> (Inl err, h')
                   | Inr n \<Rightarrow> each_keys_loop coll ks func 0 n e h'))))"

text \<open>
  What the specification says of \<open>each\<close>: one call of the callback per element, in
  order, with the element and its index or key, stopping at the first call that throws.
\<close>

fun visits :: "'e visitor \<Rightarrow> (val \<times> val) list \<Rightarrow> 'e \<Rightarrow> heap \<Rightarrow> 'e res \<times> heap" where
  "visits func [] e h = (Inr e, h)"
| "visits func ((x, k) # ps) e h =
     (case func x k e h of
        (Inl err, h') \<Rightarrow> (Inl err, h')
      | (Inr e', h') \<Rightarrow> visits func ps e' h')"

definition indexed_pairs :: "val list \<Rightarrow> (val \<times> val) list" where
  "indexed_pairs xs = map (\<lambda>i. (xs ! i, num i)) [0..<length xs]"

text \<open>
  The same for a callback that may write to the collection: one call per position of a
  list of positions, in order, with the element that the position holds when its call is
  made.
\<close>

fun visits_at :: "'e visitor \<Rightarrow> val \<Rightarrow> nat list \<Rightarrow> 'e \<Rightarrow> heap \<Rightarrow> 'e res \<times> heap" where
  "visits_at func coll [] e h = (Inr e, h)"
| "visits_at func coll (i # is) e h =
     (case index_get h coll i of
        Inl err \<Rightarrow> (Inl err, h)
      | Inr item \<Rightarrow>
          (case func item (num i) e h of
             (Inl err, h') \<Rightarrow> (Inl err, h')
           | (Inr e', h') \<Rightarrow> visits_at func coll is e' h'))"


subsection \<open>keys, len, isEmpty\<close>

text \<open>
  \<^verbatim>\<open>
  var keys = g_.keys = function(coll) {
      var result = [];
      for (key in coll) { result.push(key); }
      return result;
  };
  var len = g_.len = function(coll) {
      var size = 0, key;
      if (isArray(coll) || isString(coll)) { return coll.length; }
      for (key in coll) { size++; }
      return size;
  }
  var isEmpty = g_.isEmpty = function(coll) { return len(coll) === 0; }
  \<close>
\<close>

definition keys :: "val \<Rightarrow> heap \<Rightarrow> val \<times> heap" where
  "keys coll h = (let (r, h') = alloc (Array (map (\<lambda>(k, v). Str k) (own_props h coll))) h in (Ref r, h'))"

definition len :: "heap \<Rightarrow> val \<Rightarrow> val res" where
  "len h coll =
     (if isArray h coll \<or> isString h coll then length_get h coll
      else Inr (num (length (own_props h coll))))"

definition isEmpty :: "heap \<Rightarrow> val \<Rightarrow> bool res" where
  "isEmpty h coll = (case len h coll of Inl err \<Rightarrow> Inl err | Inr n \<Rightarrow> Inr (strict_eq n (num 0)))"

subsection \<open>map, filter, not, reduce\<close>

text \<open>
  \<^verbatim>\<open>
  var map = g_.map = function(coll, func) {
      var result = [];
      each(coll, function(item) { result.push( func(item) ); });
      return result;
  };
  var filter = g_.filter = function(coll, pred) {
      var result = [];
      each(coll, function(item) { if ( pred(item) ) { result.push(item); } });
      return result;
  };
  var not = g_.not = function(coll, pred) {
      return filter(coll, function(i) { return !pred(i); });
  };
  \<close>
\<close>

definition map_g :: "val \<Rightarrow> callback \<Rightarrow> heap \<Rightarrow> val res \<times> heap" where
  "map_g coll func h =
     (let (r, h1) = alloc (Array []) h in
      and_then (each coll (\<lambda>item i (u::unit) h'. and_then (func item h') (push r)) () h1)
        (\<lambda>u h2. (Inr (Ref r), h2)))"

definition filter_g :: "val \<Rightarrow> callback \<Rightarrow> heap \<Rightarrow> val res \<times> heap" where
  "filter_g coll pred h =
     (let (r, h1) = alloc (Array []) h in
      and_then
        (each coll
           (\<lambda>item i (u::unit) h'.
              and_then (pred item h') (\<lambda>p h''. if truthy p then push r item h'' else (Inr (), h'')))
           () h1)
        (\<lambda>u h2. (Inr (Ref r), h2)))"

definition not_g :: "val \<Rightarrow> callback \<Rightarrow> heap \<Rightarrow> val res \<times> heap" where
  "not_g coll pred h =
     filter_g coll (\<lambda>i h'. and_then (pred i h') (\<lambda>p h''. (Inr (Bool (\<not> truthy p)), h''))) h"

text \<open>
  \<^verbatim>\<open>
  var reduce = g_.reduce = function(coll, func, seed) {
      if (isEmpty(coll)) { return coll; }
      var noSeed = arguments.length < 3;
      each(coll, function(item, i) {
          if (noSeed) { noSeed = false; seed = item; }
          else { seed = func(seed, item, i); }
      });
      return seed;
  };
  \<close>
  The third argument may be left out: \<open>seed\<close> is \<open>None\<close> then. The closure captures and
  assigns \<open>noSeed\<close> and \<open>seed\<close>.
\<close>

definition reduce :: "val \<Rightarrow> callback3 \<Rightarrow> val option \<Rightarrow> heap \<Rightarrow> val res \<times> heap" where
  "reduce coll func seed h =
     (case isEmpty h coll of
        Inl err \<Rightarrow> (Inl err, h)
      | Inr True \<Rightarrow> (Inr coll, h)
      | Inr False \<Rightarrow>
          and_then
            (each coll
               (\<lambda>item i (noSeed, sd) h'.
                  if noSeed then (Inr (False, item), h')
                  else and_then (func sd item i h') (\<lambda>v h''. (Inr (noSeed, v), h'')))
               (seed = None, case seed of None \<Rightarrow> Undefined | Some s \<Rightarrow> s) h)
            (\<lambda>(noSeed, sd) h'. (Inr sd, h')))"

subsection \<open>where, select\<close>

text \<open>
  \<^verbatim>\<open>
  var where = g_.where = function(coll, crit) {
      return filter(coll, function(item) {
          for (key in crit) { if (crit[key] !== item[key]) { return false; } }
          return true;
      });
  };
  var select = g_.select = function(coll, key) {
      return map(coll, function(item) { return item[key]; });
  };
  \<close>
\<close>

fun where_match :: "heap \<Rightarrow> val \<Rightarrow> val \<Rightarrow> string list \<Rightarrow> val res" where
  "where_match h crit item [] = Inr (Bool True)"
| "where_match h crit item (k # ks) =
     (case get_named h crit k of
        Inl err \<Rightarrow> Inl err
      | Inr c \<Rightarrow>
          (case get_named h item k of
             Inl err \<Rightarrow> Inl err
           | Inr v \<Rightarrow> if \<not> strict_eq c v then Inr (Bool False) else where_match h crit item ks))"

definition where_g :: "val \<Rightarrow> val \<Rightarrow> heap \<Rightarrow> val res \<times> heap" where
  "where_g coll crit h =
     filter_g coll (\<lambda>item h'. (where_match h' crit item (map fst (own_props h' crit)), h')) h"

definition select :: "val \<Rightarrow> val \<Rightarrow> heap \<Rightarrow> val res \<times> heap" where
  "select coll key h = map_g coll (\<lambda>item h'. (get_prop h' item key, h')) h"

subsection \<open>all, nth\<close>

text \<open>
  \<^verbatim>\<open>
  var all = g_.all = function(coll, pred) {
      return coll.length === filter(coll, pred).length;
  };
  var nth = g_.nth = function(coll, index) {
      if ( !isIndexed(coll) ) return;
      return coll[index];
  };
  \<close>
\<close>

definition all :: "val \<Rightarrow> callback \<Rightarrow> heap \<Rightarrow> val res \<times> heap" where
  "all coll pred h =
     (case length_get h coll of
        Inl err \<Rightarrow> (Inl err, h)
      | Inr n \<Rightarrow>
          and_then (filter_g coll pred h)
            (\<lambda>r h'. case length_get h' r of
                       Inl err \<Rightarrow> (Inl err, h')
                     | Inr m \<Rightarrow> (Inr (Bool (strict_eq n m)), h')))"

definition nth_g :: "heap \<Rightarrow> val \<Rightarrow> val \<Rightarrow> val res" where
  "nth_g h coll index = (if \<not> isIndexed h coll then Inr Undefined else get_prop h coll index)"

subsection \<open>max, min\<close>

text \<open>
  \<^verbatim>\<open>
  var max = g_.max = function(coll, pred) {
      var result = -Infinity;
      each(coll, function(i) {
          if ( g_.isGreaterThan(coll[i], result) ) { result = coll[i]; }
      });
      return result;
  };
  var min = g_.min = function(coll, pred) {
      var result = Infinity;
      each(coll, function(i) {
          if ( !g_.isGreaterThan(coll[i], result) ) { result = coll[i]; }
      });
      return result;
  };
  var isGreaterThan = g_.isGreaterThan = function(x, y) { return x > y; };
  \<close>
  The parameter \<open>i\<close> of the closure is the first argument of the callback: \<open>each\<close> passes
  the element there, and \<open>coll[i]\<close> reads \<open>coll\<close> at the element. The closure captures and
  assigns \<open>result\<close>.
\<close>

fun to_number :: "val \<Rightarrow> jsnum res" where
  "to_number Undefined = Inr NaN"
| "to_number Null = Inr (Fin 0)"
| "to_number (Bool b) = Inr (Fin (if b then 1 else 0))"
| "to_number (Num n) = Inr n"
| "to_number (Str s) = Inl Unsupported"
| "to_number (Ref a) = Inl Unsupported"

fun num_gt :: "jsnum \<Rightarrow> jsnum \<Rightarrow> bool" where
  "num_gt NaN y = False"
| "num_gt x NaN = False"
| "num_gt NegInf y = False"
| "num_gt (Fin i) NegInf = True"
| "num_gt (Fin i) (Fin j) = (j < i)"
| "num_gt (Fin i) PosInf = False"
| "num_gt PosInf y = (y \<noteq> PosInf)"

definition isGreaterThan :: "val \<Rightarrow> val \<Rightarrow> bool res" where
  "isGreaterThan x y =
     (case to_number x of
        Inl err \<Rightarrow> Inl err
      | Inr a \<Rightarrow> (case to_number y of Inl err \<Rightarrow> Inl err | Inr b \<Rightarrow> Inr (num_gt a b)))"

definition max_step :: "val \<Rightarrow> val visitor" where
  "max_step coll i k result h =
     (case get_prop h coll i of
        Inl err \<Rightarrow> (Inl err, h)
      | Inr x \<Rightarrow>
          (case isGreaterThan x result of
             Inl err \<Rightarrow> (Inl err, h)
           | Inr b \<Rightarrow> if b then (get_prop h coll i, h) else (Inr result, h)))"

definition max_g :: "val \<Rightarrow> heap \<Rightarrow> val res \<times> heap" where
  "max_g coll h = each coll (max_step coll) (Num NegInf) h"

definition min_step :: "val \<Rightarrow> val visitor" where
  "min_step coll i k result h =
     (case get_prop h coll i of
        Inl err \<Rightarrow> (Inl err, h)
      | Inr x \<Rightarrow>
          (case isGreaterThan x result of
             Inl err \<Rightarrow> (Inl err, h)
           | Inr b \<Rightarrow> if \<not> b then (get_prop h coll i, h) else (Inr result, h)))"

definition min_g :: "val \<Rightarrow> heap \<Rightarrow> val res \<times> heap" where
  "min_g coll h = each coll (min_step coll) (Num PosInf) h"

subsection \<open>zip\<close>

text \<open>
  \<^verbatim>\<open>
  var zip = g_.zip = function(/* args */) {
      var args   = toArray(arguments),
          i      = 0,
          len    = args[0].length,
          result = [];
      for ( ; i < len; i++) {
          result.push( map(args, function(arr) { return arr[i]; }) );
      }
      return result;
  };
  \<close>
\<close>

function zip_loop :: "val \<Rightarrow> nat \<Rightarrow> nat \<Rightarrow> nat \<Rightarrow> heap \<Rightarrow> unit res \<times> heap" where
  "zip_loop args r i n h =
     (if i < n then
        (case map_g args (\<lambda>arr h'. (index_get h' arr i, h')) h of
           (Inl err, h1) \<Rightarrow> (Inl err, h1)
         | (Inr row, h1) \<Rightarrow>
             (case push r row h1 of
                (Inl err, h2) \<Rightarrow> (Inl err, h2)
              | (Inr u, h2) \<Rightarrow> zip_loop args r (Suc i) n h2))
      else (Inr (), h))"
  by pat_completeness auto
termination
  by (relation "measure (\<lambda>(args, r, i, n, h). n - i)") auto

declare zip_loop.simps [simp del]

definition zip_g :: "val list \<Rightarrow> heap \<Rightarrow> val res \<times> heap" where
  "zip_g arguments h =
     (let (args, h1) = toArray arguments h in
      case index_get h1 args 0 of
        Inl err \<Rightarrow> (Inl err, h1)
      | Inr first \<Rightarrow>
          (case length_get h1 first of
             Inl err \<Rightarrow> (Inl err, h1)
           | Inr first_length \<Rightarrow>
               (let (r, h2) = alloc (Array []) h1 in
                case loop_bound first_length of
                  Inl err \<Rightarrow> (Inl err, h2)
                | Inr n \<Rightarrow> and_then (zip_loop args r 0 n h2) (\<lambda>u h3. (Inr (Ref r), h3)))))"

subsection \<open>mixin, clone\<close>

text \<open>
  \<^verbatim>\<open>
  var mixin = g_.mixin = function(/* args */) {
      var result = {}, prop, args = toArray(arguments);
      each(args, function(obj) {
          for (prop in obj) { result[prop] = obj[prop]; }
      });
      return result;
  };
  var clone = g_.clone = function(coll) {
      if ( isArray(coll) )  return coll.slice(0);
      if ( isObject(coll) ) return mixin({}, coll);
  };
  \<close>
  The body of the \<open>for\<close> loop writes to \<open>result\<close> only, an object made by this call that
  no argument refers to: the properties of \<open>obj\<close> are those found when the loop starts.
\<close>

fun copy_props :: "nat \<Rightarrow> (string \<times> val) list \<Rightarrow> heap \<Rightarrow> unit res \<times> heap" where
  "copy_props r [] h = (Inr (), h)"
| "copy_props r ((k, v) # ps) h =
     (case set_named r k v h of
        (Inl err, h') \<Rightarrow> (Inl err, h')
      | (Inr u, h') \<Rightarrow> copy_props r ps h')"

definition mixin :: "val list \<Rightarrow> heap \<Rightarrow> val res \<times> heap" where
  "mixin arguments h =
     (let (r, h1) = alloc (Object []) h;
          (args, h2) = toArray arguments h1 in
      and_then (each args (\<lambda>ob i (u::unit) h'. copy_props r (own_props h' ob) h') () h2)
        (\<lambda>u h3. (Inr (Ref r), h3)))"

definition clone :: "val \<Rightarrow> heap \<Rightarrow> val res \<times> heap" where
  "clone coll h =
     (if isArray h coll then
        (case coll of
           Ref a \<Rightarrow>
             (case lookup h a of
                Some (Array xs) \<Rightarrow> (let (r, h') = alloc (Array xs) h in (Inr (Ref r), h'))
              | _ \<Rightarrow> (Inl TypeError, h))
         | _ \<Rightarrow> (Inl TypeError, h))
      else if isObject h coll then
        (let (e, h') = alloc (Object []) h in mixin [Ref e, coll] h')
      else (Inr Undefined, h))"

section \<open>Function combinators\<close>

subsection \<open>curry\<close>

text \<open>
  \<^verbatim>\<open>
  var curry = g_.curry = function(func) {
      return function(/* args */) {
          var args = toArray(arguments);
          if (func.length === args.length) {
              return func.apply(null, args);
          }
          else {
              return function(/* args */) {
                  var allArgs = args.concat( toArray(arguments) );
                  return func.apply(null, allArgs);
              };
          }
      };
  };
  \<close>
  A function of the caller is its declared number of parameters, \<open>func.length\<close>, and what
  a call with a list of arguments does. The arrays \<open>args\<close> and \<open>allArgs\<close> never leave the
  closures: they are lists. \<open>curry_g func\<close> is the function that \<open>curry(func)\<close> returns; a
  call of it returns what \<open>func\<close> returned, or a function.
\<close>

record 'r func =
  func_length :: nat
  func_apply :: "val list \<Rightarrow> 'r"

datatype 'r curried = Returned 'r | Function "val list \<Rightarrow> 'r"

definition curry_g :: "'r func \<Rightarrow> val list \<Rightarrow> 'r curried" where
  "curry_g func args =
     (if func_length func = length args then Returned (func_apply func args)
      else Function (\<lambda>arguments. func_apply func (args @ arguments)))"

subsection \<open>memoize\<close>

text \<open>
  \<^verbatim>\<open>
  var memoize = g_.memoize = function(func) {
      var cache = {};
      return function(/* args */) {
          var args = toArray(arguments).toString();
          if (!cache[args]) {
              cache[args] = func.apply(func, arguments);
          }
          return cache[args];
      };
  };
  \<close>
  \<open>cache\<close> is a plain object that only the returned function reaches: its properties are
  the state of that function, next to the state \<open>'s\<close> that \<open>func\<close> works on.
  \<open>to_string\<close> stands for \<open>toArray(arguments).toString()\<close>, the string that the host
  makes of the arguments. \<open>memoized\<close> is one call of the returned function;
  \<open>memoize\<close> returns that function together with the empty cache it starts with.
\<close>

type_synonym cache = "(string \<times> val) list"

definition memoized ::
  "(val list \<Rightarrow> 's \<Rightarrow> string) \<Rightarrow> (val list \<Rightarrow> 's \<Rightarrow> val res \<times> 's) \<Rightarrow> val list \<Rightarrow>
   cache \<times> 's \<Rightarrow> val res \<times> (cache \<times> 's)" where
  "memoized to_string func arguments st =
     (case st of (cache, s) \<Rightarrow>
        (let args = to_string arguments s in
         case named_of cache args of
           Inl err \<Rightarrow> (Inl err, (cache, s))
         | Inr c \<Rightarrow>
             if \<not> truthy c then
               (case func arguments s of
                  (Inl err, s') \<Rightarrow> (Inl err, (cache, s'))
                | (Inr v, s') \<Rightarrow>
                    (let cache' = AList.update args v cache in (named_of cache' args, (cache', s'))))
             else (named_of cache args, (cache, s))))"

definition memoize ::
  "(val list \<Rightarrow> 's \<Rightarrow> string) \<Rightarrow> (val list \<Rightarrow> 's \<Rightarrow> val res \<times> 's) \<Rightarrow>
   cache \<times> (val list \<Rightarrow> cache \<times> 's \<Rightarrow> val res \<times> (cache \<times> 's))" where
  "memoize to_string func = ([], memoized to_string func)"

section \<open>Notions used in the statements\<close>

text \<open>The object a value refers to, and the elements of an indexed collection in index order.\<close>

definition object_of :: "heap \<Rightarrow> val \<Rightarrow> obj option" where
  "object_of h v = (case v of Ref a \<Rightarrow> lookup h a | _ \<Rightarrow> None)"

definition items :: "heap \<Rightarrow> val \<Rightarrow> val list" where
  "items h v = (case object_of h v of Some ob \<Rightarrow> seq_items ob | None \<Rightarrow> [])"

fun is_seq :: "obj \<Rightarrow> bool" where
  "is_seq (Array xs) = True"
| "is_seq (StringObj s) = True"
| "is_seq (Object kvs) = False"

text \<open>The function \<open>(a, b, c) => a + b + c\<close> of the specification's examples, on integers.\<close>

definition add3 :: "val func" where
  "add3 = \<lparr>func_length = 3,
           func_apply = (\<lambda>args. case args of
                          [Num (Fin a), Num (Fin b), Num (Fin c)] \<Rightarrow> Num (Fin (a + b + c))
                        | _ \<Rightarrow> Num NaN)\<rparr>"

text \<open>
  What the specification says of \<open>zip\<close>: one tuple per position of the first input;
  tuple \<open>j\<close> holds, for every input in order, its element at position \<open>j\<close>, or
  \<open>undefined\<close> where the input is too short.
\<close>

definition elem_at :: "val list \<Rightarrow> nat \<Rightarrow> val" where
  "elem_at xs j = (if j < length xs then xs ! j else Undefined)"

definition tuple_at :: "heap \<Rightarrow> val list \<Rightarrow> nat \<Rightarrow> val list" where
  "tuple_at h arguments j = map (\<lambda>arg. elem_at (items h arg) j) arguments"

definition zipped :: "heap \<Rightarrow> val list \<Rightarrow> val list list" where
  "zipped h arguments = map (tuple_at h arguments) [0..<length (items h (hd arguments))]"

text \<open>
  The store after \<open>i\<close> rounds of the loop of \<open>zip\<close>: the array of the arguments, the
  result with \<open>i\<close> references, and the \<open>i\<close> tuples they refer to.
\<close>

definition zip_heap :: "heap \<Rightarrow> val list \<Rightarrow> nat \<Rightarrow> heap" where
  "zip_heap h arguments i =
     h @ [Array arguments, Array (map (\<lambda>j. Ref (length h + 2 + j)) [0..<i])] @
     map (\<lambda>j. Array (tuple_at h arguments j)) [0..<i]"

text \<open>
  \<open>kept n h h'\<close>: the store \<open>h'\<close> holds every object of \<open>h\<close> and, at the addresses below
  \<open>n\<close>, the objects that \<open>h\<close> holds there. \<open>unchanged h h'\<close>: every object of \<open>h\<close> is in
  \<open>h'\<close> as it was, elements and key/value pairs; \<open>h'\<close> may hold new objects after them.
\<close>

definition kept :: "nat \<Rightarrow> heap \<Rightarrow> heap \<Rightarrow> bool" where
  "kept n h h' = (length h \<le> length h' \<and> take n h' = take n h)"

definition unchanged :: "heap \<Rightarrow> heap \<Rightarrow> bool" where
  "unchanged h h' = kept (length h) h h'"

text \<open>A plain object is at the address \<open>r\<close>.\<close>

definition is_object_at :: "nat \<Rightarrow> heap \<Rightarrow> bool" where
  "is_object_at r h = (case lookup h r of Some (Object kvs) \<Rightarrow> True | _ \<Rightarrow> False)"

text \<open>
  What the specification says of \<open>reduce\<close> with a seed: the left fold that calls the
  combining function on the running value, the element and its index, for every element
  in order, stopping at the first call that throws.
\<close>

fun fold_calls :: "callback3 \<Rightarrow> (val \<times> val) list \<Rightarrow> val \<Rightarrow> heap \<Rightarrow> val res \<times> heap" where
  "fold_calls func [] acc h = (Inr acc, h)"
| "fold_calls func ((x, k) # ps) acc h =
     (case func acc x k h of
        (Inl err, h') \<Rightarrow> (Inl err, h')
      | (Inr v, h') \<Rightarrow> fold_calls func ps v h')"

text \<open>The left fold over the positions of a list, each element read when it is reached.\<close>

fun fold_calls_at :: "callback3 \<Rightarrow> val \<Rightarrow> nat list \<Rightarrow> val \<Rightarrow> heap \<Rightarrow> val res \<times> heap" where
  "fold_calls_at func coll [] acc h = (Inr acc, h)"
| "fold_calls_at func coll (i # is) acc h =
     (case index_get h coll i of
        Inl err \<Rightarrow> (Inl err, h)
      | Inr item \<Rightarrow>
          (case func acc item (num i) h of
             (Inl err, h') \<Rightarrow> (Inl err, h')
           | (Inr v, h') \<Rightarrow> fold_calls_at func coll is v h'))"

text \<open>
  Callbacks of the examples: one that records the arguments of every call,
  \<open>(a, b) => a + b\<close> on integers, one that holds of every element, a store with an
  array and a plain object, and a function that counts its calls in its state and
  returns \<open>0\<close>.
\<close>

definition log_visit :: "(val \<times> val) list visitor" where
  "log_visit x k e h = (Inr (e @ [(x, k)]), h)"

definition add_numbers :: callback3 where
  "add_numbers a b i h =
     (Inr (case (a, b) of (Num (Fin x), Num (Fin y)) \<Rightarrow> Num (Fin (x + y)) | _ \<Rightarrow> Num NaN), h)"

definition always_true :: callback where
  "always_true x h = (Inr (Bool True), h)"

definition example_store :: heap where
  "example_store = [Array [num 1, num 2], Object [(''a'', num 1)]]"

definition count_zero :: "val list \<Rightarrow> nat \<Rightarrow> val res \<times> nat" where
  "count_zero args calls = (Inr (num 0), Suc calls)"

section \<open>Reading indexed collections\<close>

lemma isIndexed_iff:
  "isIndexed h v = (case object_of h v of Some ob \<Rightarrow> is_seq ob | None \<Rightarrow> False)"
  by (auto simp: isIndexed_def isArray_def isString_def object_of_def
      split: val.splits option.splits obj.splits)

lemma isIndexedE:
  assumes "isIndexed h v"
  obtains a ob where "v = Ref a" "lookup h a = Some ob" "is_seq ob"
  using assms by (auto simp: isIndexed_iff object_of_def split: val.splits option.splits)

lemma index_get_seq:
  "lookup h a = Some ob \<Longrightarrow> is_seq ob \<Longrightarrow>
   index_get h (Ref a) i = Inr (if i < length (seq_items ob) then seq_items ob ! i else Undefined)"
  by (cases ob) (auto simp: char_at_def)

lemma length_get_seq:
  "lookup h a = Some ob \<Longrightarrow> is_seq ob \<Longrightarrow>
   length_get h (Ref a) = Inr (num (length (seq_items ob)))"
  by (cases ob) auto

lemma lookup_append_old: "a < length h \<Longrightarrow> lookup (h @ hs) a = lookup h a"
  by (simp add: lookup_def nth_append)

lemma push_array:
  "lookup H r = Some (Array acc) \<Longrightarrow> push r v H = (Inr (), H[r := Array (acc @ [v])])"
  by (simp add: push_def)

lemma lookup_append_new: "lookup (H @ [ob]) (length H) = Some ob"
  by (simp add: lookup_def)

lemma loop_bound_num [simp]: "loop_bound (num n) = Inr n"
  by (simp add: num_def)

section \<open>nth\<close>

text \<open>
  C10. \<open>nth(coll, index)\<close> never fails: when the collection is not indexed it returns
  \<open>undefined\<close>, whatever the index; when the collection is indexed and the index is a
  number, it returns the element at the index if the index is one of the positions, and
  \<open>undefined\<close> if the index is out of bounds (negative, too large, infinite or NaN).
\<close>

theorem nth_never_fails:
  "(\<not> isIndexed h coll \<longrightarrow> nth_g h coll index = Inr Undefined) \<and>
   (isIndexed h coll \<longrightarrow>
      nth_g h coll (Num n) =
        Inr (case n of
               Fin i \<Rightarrow> if 0 \<le> i \<and> nat i < length (items h coll) then items h coll ! nat i
                        else Undefined
             | _ \<Rightarrow> Undefined))"
proof (intro conjI impI)
  assume "\<not> isIndexed h coll"
  then show "nth_g h coll index = Inr Undefined"
    by (simp add: nth_g_def)
next
  assume ix: "isIndexed h coll"
  then obtain a ob where c: "coll = Ref a" "lookup h a = Some ob" "is_seq ob"
    by (rule isIndexedE)
  have ab: "absent_get h (Ref a) = Inr Undefined"
    using c by (cases ob) auto
  show "nth_g h coll (Num n) =
        Inr (case n of
               Fin i \<Rightarrow> if 0 \<le> i \<and> nat i < length (items h coll) then items h coll ! nat i
                        else Undefined
             | _ \<Rightarrow> Undefined)"
    using ix c ab
    by (cases n) (auto simp: nth_g_def get_prop_def index_get_seq items_def object_of_def
        simp del: index_get.simps absent_get.simps)
qed

theorem nth_never_fails_witness:
  "nth_g [Array [num 7, num 8]] (Ref 0) (Num (Fin 1)) = Inr (num 8) \<and>
   nth_g [Array [num 7, num 8]] (Ref 0) (Num (Fin 2)) = Inr Undefined \<and>
   nth_g [Object [(''a'', num 7)]] (Ref 0) (Str ''a'') = Inr Undefined"
  using nth_never_fails [of "[Array [num 7, num 8]]" "Ref 0" Undefined "Fin 1"]
    nth_never_fails [of "[Array [num 7, num 8]]" "Ref 0" Undefined "Fin 2"]
    nth_never_fails [of "[Object [(''a'', num 7)]]" "Ref 0" "Str ''a''" NaN]
  by (simp add: isIndexed_iff object_of_def items_def lookup_def)

section \<open>curry\<close>

text \<open>
  C6. For a function \<open>func\<close> that declares \<open>k\<close> parameters: a call of \<open>curry(func)\<close> with
  exactly \<open>k\<close> arguments calls \<open>func\<close> at once with them and returns its result; a call
  with \<open>m < k\<close> arguments returns a function that, called with the remaining \<open>k - m\<close>
  arguments, calls \<open>func\<close> with the two groups of arguments, the earlier group first.
\<close>

theorem curry_full_and_partial:
  "(length args = func_length func \<longrightarrow> curry_g func args = Returned (func_apply func args)) \<and>
   (length args < func_length func \<longrightarrow>
      (\<exists>g. curry_g func args = Function g \<and>
           (\<forall>rest. length rest = func_length func - length args \<longrightarrow>
                   g rest = func_apply func (args @ rest))))"
  by (simp add: curry_g_def)

theorem curry_full_and_partial_witness:
  "curry_g add3 [num 1, num 2, num 3] = Returned (num 6) \<and>
   (\<exists>g. curry_g add3 [num 1] = Function g \<and> g [num 2, num 3] = num 6)"
  using curry_full_and_partial [of "[num 1, num 2, num 3]" add3]
    curry_full_and_partial [of "[num 1]" add3]
  by (auto simp: add3_def num_def)

section \<open>each\<close>

lemma each_not_indexed: "\<not> isIndexed h coll \<Longrightarrow> each coll func e h = (Inl TypeError, h)"
  by (simp add: each_def call_value_def)

lemma each_indexed:
  assumes "lookup h a = Some ob" "is_seq ob"
  shows "each (Ref a) func e h = each_loop (Ref a) func 0 (length (seq_items ob)) e h"
  using assms
  by (simp add: each_def isIndexed_iff object_of_def length_get_seq del: length_get.simps)

text \<open>
  The loop from round \<open>i\<close> on is the list of calls for the elements from \<open>i\<close> on, as long
  as no call replaces the collection.
\<close>

lemma each_loop_visits:
  assumes seq: "is_seq ob"
  shows "(\<And>x k e' h'. lookup h' a = Some ob \<Longrightarrow> lookup (snd (func x k e' h')) a = Some ob) \<Longrightarrow>
    lookup h a = Some ob \<Longrightarrow> n = length (seq_items ob) \<Longrightarrow>
    each_loop (Ref a) func i n e h =
      visits func (map (\<lambda>j. (seq_items ob ! j, num j)) [i..<n]) e h"
proof (induction "Ref a" func i n e h rule: each_loop.induct)
  case (1 func i len e h)
  note keep = "1.prems"(1)
  show ?case
  proof (cases "i < len")
    case False
    then show ?thesis by (subst each_loop.simps) simp
  next
    case True
    have ig: "index_get h (Ref a) i = Inr (seq_items ob ! i)"
      using "1.prems" True seq by (simp add: index_get_seq del: index_get.simps)
    have up: "[i..<len] = i # [Suc i..<len]"
      using True by (simp add: upt_conv_Cons)
    show ?thesis
    proof (cases "func (seq_items ob ! i) (num i) e h")
      case (Pair r h')
      have keep': "lookup h' a = Some ob"
        using Pair keep [OF "1.prems"(2), of "seq_items ob ! i" "num i" e] by simp
      show ?thesis
      proof (cases r)
        case (Inl err)
        then show ?thesis
          using True ig Pair up by (subst each_loop.simps) (simp del: index_get.simps)
      next
        case (Inr e')
        have "each_loop (Ref a) func (Suc i) len e' h' =
              visits func (map (\<lambda>j. (seq_items ob ! j, num j)) [Suc i..<len]) e' h'"
          using "1.hyps" [OF True ig _ _ keep keep'] Pair Inr True "1.prems" by simp
        then show ?thesis
          using True ig Pair Inr up by (subst each_loop.simps) (simp del: index_get.simps)
      qed
    qed
  qed
qed

lemma each_visits:
  assumes "lookup h a = Some ob" "is_seq ob"
    and "\<And>x k e' h'. lookup h' a = Some ob \<Longrightarrow> lookup (snd (func x k e' h')) a = Some ob"
  shows "each (Ref a) func e h = visits func (indexed_pairs (seq_items ob)) e h"
  using each_loop_visits [OF assms(2), of a func h "length (seq_items ob)" 0 e] assms
  by (simp add: each_indexed indexed_pairs_def)

lemma each_visits_unmodified:
  assumes "isIndexed h coll"
    and "\<And>x k e' h'. object_of h' coll = object_of h coll \<Longrightarrow>
           object_of (snd (visit x k e' h')) coll = object_of h coll"
  shows "each coll visit e h = visits visit (indexed_pairs (items h coll)) e h"
proof -
  from assms(1) obtain a ob where c: "coll = Ref a" "lookup h a = Some ob" "is_seq ob"
    by (rule isIndexedE)
  have "each (Ref a) visit e h = visits visit (indexed_pairs (seq_items ob)) e h"
    using c(2,3)
  proof (rule each_visits)
    fix x k e' h' assume "lookup h' a = Some ob"
    then show "lookup (snd (visit x k e' h')) a = Some ob"
      using assms(2) [of h' x k e'] c by (simp add: object_of_def)
  qed
  then show ?thesis using c by (simp add: items_def object_of_def)
qed

lemma each_loop_visits_at:
  "each_loop coll func i n e h = visits_at func coll [i..<n] e h"
proof (induction coll func i n e h rule: each_loop.induct)
  case (1 coll func i len e h)
  show ?case
  proof (cases "i < len")
    case False
    then show ?thesis by (subst each_loop.simps) simp
  next
    case True
    have up: "[i..<len] = i # [Suc i..<len]"
      using True by (simp add: upt_conv_Cons)
    show ?thesis
      using True "1.IH"
      by (subst each_loop.simps) (auto simp: up simp del: index_get.simps split: sum.splits prod.splits)
  qed
qed

lemma each_visits_at:
  assumes "isIndexed h coll"
  shows "each coll func e h = visits_at func coll [0..<length (items h coll)] e h"
proof -
  from assms obtain a ob where c: "coll = Ref a" "lookup h a = Some ob" "is_seq ob"
    by (rule isIndexedE)
  show ?thesis
    using c by (simp add: each_indexed each_loop_visits_at items_def object_of_def)
qed

text \<open>
  On an indexed collection (an array or a String object) \<open>each\<close> does what it is to do,
  for every callback: it calls the callback exactly once per position of the collection,
  in index order, with the element at the position as the first argument and the integer
  index as the second; the positions are those of the length read before the first call,
  and an element is read when its call is made. For a callback that leaves the collection
  as it is, these are the calls for the elements of the collection, one each.
\<close>

lemma each_indexed_visits_every_element:
  assumes "isIndexed h coll"
  shows "each coll visit e h = visits_at visit coll [0..<length (items h coll)] e h \<and>
         ((\<forall>x k e' h'. object_of h' coll = object_of h coll \<longrightarrow>
              object_of (snd (visit x k e' h')) coll = object_of h coll) \<longrightarrow>
          each coll visit e h = visits visit (indexed_pairs (items h coll)) e h)"
proof (intro conjI impI)
  show "each coll visit e h = visits_at visit coll [0..<length (items h coll)] e h"
    using assms by (rule each_visits_at)
next
  assume k: "\<forall>x k e' h'. object_of h' coll = object_of h coll \<longrightarrow>
               object_of (snd (visit x k e' h')) coll = object_of h coll"
  show "each coll visit e h = visits visit (indexed_pairs (items h coll)) e h"
    using assms
  proof (rule each_visits_unmodified)
    fix x k e' h' assume "object_of h' coll = object_of h coll"
    then show "object_of (snd (visit x k e' h')) coll = object_of h coll"
      using k by blast
  qed
qed

lemma each_indexed_visits_example:
  "isIndexed [Array [Str ''a'', Str ''b'']] (Ref 0) \<and>
   each (Ref 0) log_visit [] [Array [Str ''a'', Str ''b'']] =
     (Inr [(Str ''a'', num 0), (Str ''b'', num 1)], [Array [Str ''a'', Str ''b'']])"
proof -
  have i: "isIndexed [Array [Str ''a'', Str ''b'']] (Ref 0)"
    by (simp add: isIndexed_iff object_of_def lookup_def)
  have "each (Ref 0) log_visit [] [Array [Str ''a'', Str ''b'']] =
        visits log_visit (indexed_pairs (items [Array [Str ''a'', Str ''b'']] (Ref 0))) []
          [Array [Str ''a'', Str ''b'']]"
    using each_indexed_visits_every_element [OF i, of log_visit "[]", THEN conjunct2]
    by (simp add: log_visit_def)
  then show ?thesis
    using i
    by (simp add: items_def object_of_def lookup_def indexed_pairs_def log_visit_def upt_rec)
qed

text \<open>
  C1 is not what the code does on a mapping: for every plain object and every callback,
  \<open>each\<close> throws a TypeError and calls the callback for no element, where it is to call
  it once per element with the element and its key. The \<open>else\<close> branch calls \<open>keys\<close>, which
  inside \<open>each\<close> is the unassigned local variable, not the function of the library.
\<close>

theorem each_throws_on_mapping:
  assumes "object_of h coll = Some (Object kvs)"
  shows "each coll visit e h = (Inl TypeError, h)"
proof -
  have "\<not> isIndexed h coll"
    using assms by (simp add: isIndexed_iff)
  then show ?thesis
    by (rule each_not_indexed)
qed

text \<open>
  On \<open>{a: 1}\<close> the callback is to be called once, with \<open>1\<close> and the key \<open>"a"\<close>; \<open>each\<close>
  throws and records no call. The function \<open>keys\<close> of the library, which \<open>each\<close> does not
  reach, returns the key.
\<close>

theorem each_throws_on_mapping_witness:
  "object_of [Object [(''a'', num 1)]] (Ref 0) = Some (Object [(''a'', num 1)]) \<and>
   each (Ref 0) log_visit [] [Object [(''a'', num 1)]] =
     (Inl TypeError, [Object [(''a'', num 1)]]) \<and>
   visits log_visit [(num 1, Str ''a'')] [] [Object [(''a'', num 1)]] =
     (Inr [(num 1, Str ''a'')], [Object [(''a'', num 1)]]) \<and>
   keys (Ref 0) [Object [(''a'', num 1)]] =
     (Ref 1, [Object [(''a'', num 1)], Array [Str ''a'']])"
proof -
  have o: "object_of [Object [(''a'', num 1)]] (Ref 0) = Some (Object [(''a'', num 1)])"
    by (simp add: object_of_def lookup_def)
  show ?thesis
    using o each_throws_on_mapping [OF o, of log_visit "[]"]
    by (simp add: log_visit_def keys_def alloc_def lookup_def)
qed

section \<open>reduce\<close>

lemma isEmpty_seq:
  assumes "lookup h a = Some ob" "is_seq ob"
  shows "isEmpty h (Ref a) = Inr (seq_items ob = [])"
  using assms
  by (auto simp: isEmpty_def len_def length_get_seq strict_eq_def num_def
      isIndexed_iff [unfolded isIndexed_def] object_of_def
      simp del: length_get.simps)

text \<open>With a seed the closure of \<open>reduce\<close> never takes its first branch.\<close>

lemma reduce_visits_seeded:
  "visits (\<lambda>item i (noSeed, sd) h'.
             if noSeed then (Inr (False, item), h')
             else and_then (func sd item i h') (\<lambda>v h''. (Inr (noSeed, v), h''))) ps (False, s) h
   = (case fold_calls func ps s h of
        (Inl err, h') \<Rightarrow> (Inl err, h')
      | (Inr v, h') \<Rightarrow> (Inr (False, v), h'))"
proof (induction ps arbitrary: s h)
  case Nil
  show ?case by simp
next
  case (Cons p ps)
  obtain x k where p: "p = (x, k)" by (cases p)
  show ?case
  proof (cases "func s x k h")
    case (Pair r h')
    then show ?thesis
      using Cons.IH p by (cases r) (simp_all add: and_then_def)
  qed
qed

lemma reduce_visits_at_seeded:
  "visits_at (\<lambda>item i (noSeed, sd) h'.
             if noSeed then (Inr (False, item), h')
             else and_then (func sd item i h') (\<lambda>v h''. (Inr (noSeed, v), h''))) coll is (False, s) h
   = (case fold_calls_at func coll is s h of
        (Inl err, h') \<Rightarrow> (Inl err, h')
      | (Inr v, h') \<Rightarrow> (Inr (False, v), h'))"
proof (induction "is" arbitrary: s h)
  case Nil
  show ?case by simp
next
  case (Cons i "is")
  show ?case
  proof (cases "index_get h coll i")
    case (Inl err)
    then show ?thesis by (simp del: index_get.simps)
  next
    case (Inr item)
    show ?thesis
    proof (cases "func s item (num i) h")
      case (Pair r h')
      then show ?thesis
        using Cons.IH Inr by (cases r) (simp_all add: and_then_def del: index_get.simps)
    qed
  qed
qed

lemma reduce_seeded_at:
  assumes "isIndexed h coll" "items h coll \<noteq> []"
  shows "reduce coll func (Some s) h = fold_calls_at func coll [0..<length (items h coll)] s h"
proof -
  from assms obtain a ob where c: "coll = Ref a" "lookup h a = Some ob" "is_seq ob"
    by (auto elim: isIndexedE)
  have ne: "isEmpty h coll = Inr False"
    using assms(2) c by (simp add: isEmpty_seq items_def object_of_def)
  show ?thesis
    using ne
    by (cases "fold_calls_at func coll [0..<length (items h coll)] s h")
      (auto simp: reduce_def each_visits_at [OF assms(1)] reduce_visits_at_seeded and_then_def
        split: sum.splits)
qed

text \<open>Without a seed the first element is the seed and the fold goes on from the second.\<close>

lemma reduce_unseeded_at:
  assumes "isIndexed h coll" "items h coll \<noteq> []"
  shows "reduce coll func None h =
         fold_calls_at func coll [1..<length (items h coll)] (items h coll ! 0) h"
proof -
  from assms obtain a ob where c: "coll = Ref a" "lookup h a = Some ob" "is_seq ob"
    by (auto elim: isIndexedE)
  have it: "items h coll = seq_items ob"
    using c by (simp add: items_def object_of_def)
  have ne: "isEmpty h coll = Inr False"
    using assms(2) c it by (simp add: isEmpty_seq)
  have up: "[0..<length (items h coll)] = 0 # [1..<length (items h coll)]"
    using assms(2) by (simp add: upt_conv_Cons)
  have ig: "index_get h coll 0 = Inr (items h coll ! 0)"
    using c assms(2) it by (simp add: index_get_seq del: index_get.simps)
  show ?thesis
    using ne ig
    by (cases "fold_calls_at func coll [1..<length (items h coll)] (items h coll ! 0) h")
      (auto simp: reduce_def each_visits_at [OF assms(1)] up reduce_visits_at_seeded and_then_def
        simp del: index_get.simps upt_Suc split: sum.splits)
qed


lemma reduce_fold_unmodified:
  assumes "\<And>acc x k h'. object_of h' coll = object_of h coll \<Longrightarrow>
             object_of (snd (func acc x k h')) coll = object_of h coll"
  shows "(isEmpty h coll = Inr True \<longrightarrow> reduce coll func seed h = (Inr coll, h)) \<and>
         (isIndexed h coll \<and> items h coll \<noteq> [] \<longrightarrow>
            reduce coll func (Some s) h = fold_calls func (indexed_pairs (items h coll)) s h)"
proof (intro conjI impI)
  assume "isEmpty h coll = Inr True"
  then show "reduce coll func seed h = (Inr coll, h)"
    by (simp add: reduce_def)
next
  assume a: "isIndexed h coll \<and> items h coll \<noteq> []"
  then obtain a ob where c: "coll = Ref a" "lookup h a = Some ob" "is_seq ob"
    by (auto elim: isIndexedE)
  have it: "items h coll = seq_items ob"
    using c by (simp add: items_def object_of_def)
  let ?step = "\<lambda>item i (noSeed, sd) h'.
                  if noSeed then (Inr (False, item), h')
                  else and_then (func sd item i h') (\<lambda>v h''. (Inr (noSeed, v), h''))"
  have ev: "each (Ref a) ?step (False, s) h =
            visits ?step (indexed_pairs (seq_items ob)) (False, s) h"
    using c(2,3)
  proof (rule each_visits)
    fix x k :: val and e' :: "bool \<times> val" and h' :: heap
    assume l: "lookup h' a = Some ob"
    obtain ns sd where e': "e' = (ns, sd)" by (cases e')
    have "lookup (snd (func sd x k h')) a = Some ob"
      using assms [of h' sd x k] c l by (simp add: object_of_def)
    then show "lookup (snd (?step x k e' h')) a = Some ob"
      using l e' by (cases "func sd x k h'") (auto simp: and_then_def split: sum.splits)
  qed
  have ne: "isEmpty h (Ref a) = Inr False"
    using a c it by (simp add: isEmpty_seq)
  show "reduce coll func (Some s) h = fold_calls func (indexed_pairs (items h coll)) s h"
    using c(1) ne ev it
    by (cases "fold_calls func (indexed_pairs (seq_items ob)) s h")
      (auto simp: reduce_def reduce_visits_seeded and_then_def split: sum.splits)
qed

text \<open>
  C2, as amended. For every combining function and every seed: on a collection that is
  empty, \<open>reduce\<close> returns the collection itself, with or without a seed; on an indexed
  collection that is not empty, \<open>reduce\<close> with a seed is the left fold of the function over
  the positions in index order, started at the seed, calling the function on the running
  value, the element and its index for every element, the first included. An element is
  read when it is reached; for a function that leaves the collection as it is, the fold
  is over the elements of the collection. (Nothing is said here of a mapping that is not
  empty.)
\<close>

theorem reduce_left_fold:
  "(isEmpty h coll = Inr True \<longrightarrow> reduce coll func seed h = (Inr coll, h)) \<and>
   (isIndexed h coll \<and> items h coll \<noteq> [] \<longrightarrow>
      reduce coll func (Some s) h = fold_calls_at func coll [0..<length (items h coll)] s h \<and>
      ((\<forall>acc x k h'. object_of h' coll = object_of h coll \<longrightarrow>
           object_of (snd (func acc x k h')) coll = object_of h coll) \<longrightarrow>
       reduce coll func (Some s) h = fold_calls func (indexed_pairs (items h coll)) s h))"
proof (intro conjI impI)
  assume "isEmpty h coll = Inr True"
  then show "reduce coll func seed h = (Inr coll, h)"
    by (simp add: reduce_def)
next
  assume "isIndexed h coll \<and> items h coll \<noteq> []"
  then show "reduce coll func (Some s) h = fold_calls_at func coll [0..<length (items h coll)] s h"
    by (simp add: reduce_seeded_at)
next
  assume a: "isIndexed h coll \<and> items h coll \<noteq> []"
    and k: "\<forall>acc x k h'. object_of h' coll = object_of h coll \<longrightarrow>
              object_of (snd (func acc x k h')) coll = object_of h coll"
  show "reduce coll func (Some s) h = fold_calls func (indexed_pairs (items h coll)) s h"
    using reduce_fold_unmodified [of coll h func seed s] a k by blast
qed

theorem reduce_left_fold_witness:
  "reduce (Ref 0) add_numbers (Some (num 0)) [Array [num 1, num 2, num 3, num 4]] =
     (Inr (num 10), [Array [num 1, num 2, num 3, num 4]]) \<and>
   reduce (Ref 0) add_numbers None [Array []] = (Inr (Ref 0), [Array []])"
proof -
  have e: "isEmpty [Array []] (Ref 0) = Inr True"
    by (simp add: isEmpty_seq lookup_def)
  have i: "isIndexed [Array [num 1, num 2, num 3, num 4]] (Ref 0) \<and>
           items [Array [num 1, num 2, num 3, num 4]] (Ref 0) \<noteq> []"
    by (simp add: isIndexed_iff items_def object_of_def lookup_def)
  show ?thesis
    using reduce_left_fold [of "[Array [num 1, num 2, num 3, num 4]]" "Ref 0" add_numbers
        None "num 0"]
      reduce_left_fold [of "[Array []]" "Ref 0" add_numbers None "num 0"] e i
    by (simp add: items_def object_of_def lookup_def indexed_pairs_def add_numbers_def
        num_def upt_rec)
qed

text \<open>
  C2 as stated fails on the empty array: the left fold from the seed \<open>0\<close> is \<open>0\<close>, and
  \<open>reduce([], f, 0)\<close> returns the array. On the mapping \<open>{a: 1}\<close> it throws a TypeError.
\<close>

theorem reduce_empty_counterexample:
  "reduce (Ref 0) add_numbers (Some (num 0)) [Array []] = (Inr (Ref 0), [Array []]) \<and>
   fold_calls add_numbers (indexed_pairs (items [Array []] (Ref 0))) (num 0) [Array []] =
     (Inr (num 0), [Array []]) \<and>
   reduce (Ref 0) add_numbers (Some (num 0)) [Object [(''a'', num 1)]] =
     (Inl TypeError, [Object [(''a'', num 1)]])"
  by (simp add: reduce_def isEmpty_def len_def isArray_def isString_def lookup_def
      strict_eq_def num_def items_def object_of_def indexed_pairs_def
      each_not_indexed isIndexed_def and_then_def)

section \<open>map, filter and not on indexed collections\<close>

text \<open>
  \<open>map\<close> with a callback that only reads: the result is a new array, at the first free
  address, with the values of the callback in order.
\<close>

lemma map_loop_reading:
  assumes ob: "lookup H a = Some ob" "is_seq ob"
    and f: "\<And>x acc. x \<in> set (seq_items ob) \<Longrightarrow> f x (H @ [Array acc]) = (Inr (g x), H @ [Array acc])"
    and n: "n = length (seq_items ob)"
  shows "i \<le> n \<Longrightarrow>
    each_loop (Ref a) (\<lambda>item k (u::unit) h'. and_then (f item h') (push (length H))) i n ()
      (H @ [Array acc]) = (Inr (), H @ [Array (acc @ map g (drop i (seq_items ob)))])"
proof (induction "n - i" arbitrary: i acc)
  case 0
  then show ?case using n by (subst each_loop.simps) simp
next
  case (Suc d)
  then have lt: "i < n" by simp
  have a: "a < length H" using ob(1) by (simp add: lookup_def split: if_splits)
  have ig: "index_get (H @ [Array acc]) (Ref a) i = Inr (seq_items ob ! i)"
    using ob lt n a by (simp add: index_get_seq lookup_append_old del: index_get.simps)
  have mem: "seq_items ob ! i \<in> set (seq_items ob)"
    using lt n by simp
  have step: "and_then (f (seq_items ob ! i) (H @ [Array acc])) (push (length H))
              = (Inr (), H @ [Array (acc @ [g (seq_items ob ! i)])])"
    by (simp add: f [OF mem] and_then_def push_array [OF lookup_append_new])
  have dr: "drop i (seq_items ob) = seq_items ob ! i # drop (Suc i) (seq_items ob)"
    using lt n by (simp add: Cons_nth_drop_Suc)
  have "each_loop (Ref a) (\<lambda>item k (u::unit) h'. and_then (f item h') (push (length H))) (Suc i) n ()
      (H @ [Array (acc @ [g (seq_items ob ! i)])])
      = (Inr (), H @ [Array ((acc @ [g (seq_items ob ! i)]) @ map g (drop (Suc i) (seq_items ob)))])"
    using Suc.hyps(2) lt by (intro Suc.hyps(1)) auto
  then show ?case
    using lt ig step dr by (subst each_loop.simps) (simp del: index_get.simps)
qed

lemma map_g_reading:
  assumes "lookup H a = Some ob" "is_seq ob"
    and "\<And>x acc. x \<in> set (seq_items ob) \<Longrightarrow> f x (H @ [Array acc]) = (Inr (g x), H @ [Array acc])"
  shows "map_g (Ref a) f H = (Inr (Ref (length H)), H @ [Array (map g (seq_items ob))])"
proof -
  have a: "a < length H" using assms(1) by (simp add: lookup_def split: if_splits)
  have l: "lookup (H @ [Array []]) a = Some ob"
    using assms(1) a by (simp add: lookup_append_old)
  show ?thesis
    using map_loop_reading [OF assms refl, where i = 0 and acc = "[]"]
    by (simp add: map_g_def alloc_def each_indexed [OF l assms(2)] and_then_def)
qed

lemma filter_loop_reading:
  assumes ob: "lookup H a = Some ob" "is_seq ob"
    and f: "\<And>x acc. x \<in> set (seq_items ob) \<Longrightarrow>
              pred x (H @ [Array acc]) = (Inr (p x), H @ [Array acc])"
    and n: "n = length (seq_items ob)"
  shows "i \<le> n \<Longrightarrow>
    each_loop (Ref a)
      (\<lambda>item k (u::unit) h'.
          and_then (pred item h')
            (\<lambda>q h''. if truthy q then push (length H) item h'' else (Inr (), h'')))
      i n () (H @ [Array acc])
    = (Inr (), H @ [Array (acc @ filter (\<lambda>x. truthy (p x)) (drop i (seq_items ob)))])"
proof (induction "n - i" arbitrary: i acc)
  case 0
  then show ?case using n by (subst each_loop.simps) simp
next
  case (Suc d)
  then have lt: "i < n" by simp
  let ?x = "seq_items ob ! i"
  let ?acc = "if truthy (p ?x) then acc @ [?x] else acc"
  have a: "a < length H" using ob(1) by (simp add: lookup_def split: if_splits)
  have ig: "index_get (H @ [Array acc]) (Ref a) i = Inr ?x"
    using ob lt n a by (simp add: index_get_seq lookup_append_old del: index_get.simps)
  have mem: "?x \<in> set (seq_items ob)"
    using lt n by simp
  have step: "and_then (pred ?x (H @ [Array acc]))
                (\<lambda>q h''. if truthy q then push (length H) ?x h'' else (Inr (), h''))
              = (Inr (), H @ [Array ?acc])"
    by (simp add: f [OF mem] and_then_def push_array [OF lookup_append_new])
  have dr: "drop i (seq_items ob) = ?x # drop (Suc i) (seq_items ob)"
    using lt n by (simp add: Cons_nth_drop_Suc)
  have "each_loop (Ref a)
      (\<lambda>item k (u::unit) h'.
          and_then (pred item h')
            (\<lambda>q h''. if truthy q then push (length H) item h'' else (Inr (), h'')))
      (Suc i) n () (H @ [Array ?acc])
      = (Inr (), H @ [Array (?acc @ filter (\<lambda>x. truthy (p x)) (drop (Suc i) (seq_items ob)))])"
    using Suc.hyps(2) lt by (intro Suc.hyps(1)) auto
  then show ?case
    using lt ig step dr by (subst each_loop.simps) (simp del: index_get.simps)
qed

lemma filter_g_reading:
  assumes "lookup H a = Some ob" "is_seq ob"
    and "\<And>x acc. x \<in> set (seq_items ob) \<Longrightarrow>
           pred x (H @ [Array acc]) = (Inr (p x), H @ [Array acc])"
  shows "filter_g (Ref a) pred H =
         (Inr (Ref (length H)), H @ [Array (filter (\<lambda>x. truthy (p x)) (seq_items ob))])"
proof -
  have a: "a < length H" using assms(1) by (simp add: lookup_def split: if_splits)
  have l: "lookup (H @ [Array []]) a = Some ob"
    using assms(1) a by (simp add: lookup_append_old)
  show ?thesis
    using filter_loop_reading [OF assms refl, where i = 0 and acc = "[]"]
    by (simp add: filter_g_def alloc_def each_indexed [OF l assms(2)] and_then_def)
qed

text \<open>
  On an indexed collection, with a predicate that reads and writes nothing, \<open>filter\<close> and
  \<open>not\<close> return two new arrays that partition the elements, each in index order.
\<close>

lemma filter_not_partition_indexed:
  assumes "isIndexed h coll" and "\<And>x H. pred x H = (Inr (p x), H)"
  shows "filter_g coll pred h =
           (Inr (Ref (length h)), h @ [Array (filter (\<lambda>x. truthy (p x)) (items h coll))])"
    and "not_g coll pred h =
           (Inr (Ref (length h)), h @ [Array (filter (\<lambda>x. \<not> truthy (p x)) (items h coll))])"
    and "length (filter (\<lambda>x. truthy (p x)) (items h coll)) +
         length (filter (\<lambda>x. \<not> truthy (p x)) (items h coll)) = length (items h coll)"
    and "mset (filter (\<lambda>x. truthy (p x)) (items h coll)) +
         mset (filter (\<lambda>x. \<not> truthy (p x)) (items h coll)) = mset (items h coll)"
proof -
  from assms(1) obtain a ob where c: "coll = Ref a" "lookup h a = Some ob" "is_seq ob"
    by (rule isIndexedE)
  have it: "items h (Ref a) = seq_items ob"
    using c by (simp add: items_def object_of_def)
  have "filter_g (Ref a) pred h =
        (Inr (Ref (length h)), h @ [Array (filter (\<lambda>x. truthy (p x)) (seq_items ob))])"
    using c(2,3) by (rule filter_g_reading) (simp add: assms(2))
  then show "filter_g coll pred h =
           (Inr (Ref (length h)), h @ [Array (filter (\<lambda>x. truthy (p x)) (items h coll))])"
    by (simp add: it c(1))
  have "filter_g (Ref a) (\<lambda>i h'. and_then (pred i h') (\<lambda>q h''. (Inr (Bool (\<not> truthy q)), h''))) h =
        (Inr (Ref (length h)), h @ [Array (filter (\<lambda>x. truthy (Bool (\<not> truthy (p x)))) (seq_items ob))])"
    using c(2,3) by (rule filter_g_reading) (simp add: assms(2) and_then_def)
  then show "not_g coll pred h =
           (Inr (Ref (length h)), h @ [Array (filter (\<lambda>x. \<not> truthy (p x)) (items h coll))])"
    by (simp add: not_g_def it c(1))
  show "length (filter (\<lambda>x. truthy (p x)) (items h coll)) +
         length (filter (\<lambda>x. \<not> truthy (p x)) (items h coll)) = length (items h coll)"
    by (rule sum_length_filter_compl)
  show "mset (filter (\<lambda>x. truthy (p x)) (items h coll)) +
         mset (filter (\<lambda>x. \<not> truthy (p x)) (items h coll)) = mset (items h coll)"
    by simp
qed

section \<open>Collections that are not indexed\<close>

lemma mapping_not_indexed:
  assumes "object_of h coll = Some (Object kvs)"
  shows "\<not> isIndexed (h @ hs) coll"
proof -
  from assms obtain a where a: "coll = Ref a" "lookup h a = Some (Object kvs)"
    by (auto simp: object_of_def split: val.splits)
  then have "a < length h"
    by (simp add: lookup_def split: if_splits)
  then show ?thesis
    using a by (simp add: isIndexed_iff object_of_def lookup_append_old)
qed

lemma filter_g_mapping:
  assumes "object_of h coll = Some (Object kvs)"
  shows "filter_g coll pred h = (Inl TypeError, h @ [Array []])"
  using mapping_not_indexed [OF assms, of "[Array []]"]
  by (simp add: filter_g_def alloc_def each_not_indexed and_then_def)

text \<open>
  C7 is not what the code does on a mapping: for every plain object and every
  predicate, \<open>filter\<close> and \<open>not\<close> throw a TypeError instead of returning the two parts.
\<close>

theorem filter_not_throw_on_mapping:
  assumes "object_of h coll = Some (Object kvs)"
  shows "fst (filter_g coll pred h) = Inl TypeError \<and> fst (not_g coll pred h) = Inl TypeError"
  using assms by (simp add: filter_g_mapping not_g_def)

theorem filter_not_throw_on_mapping_witness:
  "object_of [Object [(''a'', num 1)]] (Ref 0) = Some (Object [(''a'', num 1)]) \<and>
   fst (filter_g (Ref 0) always_true [Object [(''a'', num 1)]]) = Inl TypeError \<and>
   fst (not_g (Ref 0) always_true [Object [(''a'', num 1)]]) = Inl TypeError"
proof -
  have o: "object_of [Object [(''a'', num 1)]] (Ref 0) = Some (Object [(''a'', num 1)])"
    by (simp add: object_of_def lookup_def)
  show ?thesis
    using o filter_not_throw_on_mapping [OF o, of always_true] by simp
qed

text \<open>
  C9 is not what the code does: for every plain object, empty or not, and every
  predicate, \<open>all\<close> throws a TypeError where the claim has it return \<open>false\<close>; the length
  of the object is read, and \<open>filter\<close> throws before anything is compared.
\<close>

theorem all_throws_on_mapping:
  assumes "object_of h coll = Some (Object kvs)"
  shows "fst (all coll pred h) = Inl TypeError"
proof -
  from assms obtain a where a: "coll = Ref a" "lookup h a = Some (Object kvs)"
    by (auto simp: object_of_def split: val.splits)
  then show ?thesis
    using filter_g_mapping [OF assms, of pred] by (simp add: all_def and_then_def)
qed

theorem all_throws_on_mapping_witness:
  "object_of [Object []] (Ref 0) = Some (Object []) \<and>
   fst (all (Ref 0) always_true [Object []]) = Inl TypeError \<and>
   object_of [Object [(''a'', num 1)]] (Ref 0) = Some (Object [(''a'', num 1)]) \<and>
   fst (all (Ref 0) always_true [Object [(''a'', num 1)]]) = Inl TypeError"
proof -
  have o: "object_of [Object []] (Ref 0) = Some (Object [])"
    "object_of [Object [(''a'', num 1)]] (Ref 0) = Some (Object [(''a'', num 1)])"
    by (simp_all add: object_of_def lookup_def)
  show ?thesis
    using o all_throws_on_mapping [OF o(1), of always_true]
      all_throws_on_mapping [OF o(2), of always_true]
    by simp
qed

section \<open>max, min\<close>

text \<open>
  C4 is not what the code does: on the array \<open>[5]\<close> the scan reads \<open>coll[5]\<close>, which is
  \<open>undefined\<close>; \<open>max\<close> returns \<open>-Infinity\<close> and \<open>min\<close> returns \<open>undefined\<close>, where the
  largest and the smallest element are both \<open>5\<close>.
\<close>

theorem max_min_of_five:
  "max_g (Ref 0) [Array [num 5]] = (Inr (Num NegInf), [Array [num 5]]) \<and>
   min_g (Ref 0) [Array [num 5]] = (Inr Undefined, [Array [num 5]])"
  by (simp add: max_g_def min_g_def each_def isIndexed_def isArray_def lookup_def num_def
      each_loop.simps max_step_def min_step_def get_prop_def isGreaterThan_def)

section \<open>memoize\<close>

lemma named_of_update: "named_of (AList.update k v cache) k = Inr v"
  by (simp add: named_of_def update_conv')

text \<open>
  When the function returns a value that counts as true, under a key that is new and
  that no plain object inherits, the first call stores the value and a second call
  with the same key returns it and leaves the state of the function alone.
\<close>

lemma memoized_truthy_once:
  assumes "func arguments s = (Inr v, s')" and "truthy v"
    and "map_of cache (to_string arguments s) = None"
    and "to_string arguments s \<notin> set object_prototype_keys"
    and "to_string arguments s' = to_string arguments s"
  shows "memoized to_string func arguments (cache, s) =
           (Inr v, (AList.update (to_string arguments s) v cache, s'))"
    and "memoized to_string func arguments (AList.update (to_string arguments s) v cache, s') =
           (Inr v, (AList.update (to_string arguments s) v cache, s'))"
proof -
  let ?k = "to_string arguments s"
  have new: "named_of cache ?k = Inr Undefined"
    using assms(3,4) by (simp add: named_of_def)
  show "memoized to_string func arguments (cache, s) = (Inr v, (AList.update ?k v cache, s'))"
    using assms(1) new by (simp add: memoized_def named_of_update Let_def)
  show "memoized to_string func arguments (AList.update ?k v cache, s') =
          (Inr v, (AList.update ?k v cache, s'))"
    using assms(2,5) by (simp add: memoized_def named_of_update Let_def)
qed

text \<open>
  C3 is not what the code does when the function returns a value that counts as false:
  a function that returns \<open>0\<close> is called again by the second of two calls with the same
  argument. Its state counts its calls: \<open>1\<close> after the first call, \<open>2\<close> after the second,
  although the key is in the cache.
\<close>

theorem memoized_calls_twice:
  "fst (memoize (\<lambda>args s. ''1'') count_zero) = [] \<and>
   snd (memoize (\<lambda>args s. ''1'') count_zero) [num 1] ([], 0) =
     (Inr (num 0), ([(''1'', num 0)], 1)) \<and>
   snd (memoize (\<lambda>args s. ''1'') count_zero) [num 1] ([(''1'', num 0)], 1) =
     (Inr (num 0), ([(''1'', num 0)], 2))"
  by (simp add: memoized_def memoize_def named_of_def object_prototype_keys_def
      count_zero_def num_def)

section \<open>zip\<close>

lemma zip_heap_length: "length (zip_heap h args i) = length h + 2 + i"
  by (simp add: zip_heap_def)

lemma zip_heap_old: "b < length h \<Longrightarrow> lookup (zip_heap h args i @ X) b = lookup h b"
  by (simp add: zip_heap_def lookup_def nth_append)

lemma zip_heap_args: "lookup (zip_heap h args i) (length h) = Some (Array args)"
  by (simp add: zip_heap_def lookup_def nth_append)

lemma zip_heap_result:
  "lookup (zip_heap h args i @ X) (Suc (length h)) =
     Some (Array (map (\<lambda>j. Ref (length h + 2 + j)) [0..<i]))"
  by (simp add: zip_heap_def lookup_def nth_append)

lemma zip_heap_row:
  "j < i \<Longrightarrow> lookup (zip_heap h args i) (length h + 2 + j) = Some (Array (tuple_at h args j))"
  by (simp add: zip_heap_def lookup_def nth_append)

lemma zip_heap_Suc:
  "(zip_heap h args i @ [Array (tuple_at h args i)])
     [Suc (length h) := Array (map (\<lambda>j. Ref (length h + 2 + j)) [0..<i] @ [Ref (length h + 2 + i)])]
   = zip_heap h args (Suc i)"
  by (simp add: zip_heap_def list_update_append)

lemma index_get_input:
  assumes "isIndexed h x"
  shows "index_get (zip_heap h args i @ X) x j = Inr (elem_at (items h x) j)"
proof -
  from assms obtain b ob where x: "x = Ref b" "lookup h b = Some ob" "is_seq ob"
    by (rule isIndexedE)
  have b: "b < length h" using x(2) by (simp add: lookup_def split: if_splits)
  have "lookup (zip_heap h args i @ X) b = Some ob"
    using x(2) b by (simp add: zip_heap_old)
  then show ?thesis
    using x by (simp add: index_get_seq elem_at_def items_def object_of_def del: index_get.simps)
qed

lemma zip_row:
  assumes "\<forall>arg\<in>set args. isIndexed h arg"
  shows "map_g (Ref (length h)) (\<lambda>arr h'. (index_get h' arr i, h')) (zip_heap h args i)
         = (Inr (Ref (length h + 2 + i)), zip_heap h args i @ [Array (tuple_at h args i)])"
proof -
  have "map_g (Ref (length h)) (\<lambda>arr h'. (index_get h' arr i, h')) (zip_heap h args i)
        = (Inr (Ref (length (zip_heap h args i))),
           zip_heap h args i @ [Array (map (\<lambda>arg. elem_at (items h arg) i) (seq_items (Array args)))])"
    using zip_heap_args
  proof (rule map_g_reading)
    show "is_seq (Array args)" by simp
  next
    fix x acc assume "x \<in> set (seq_items (Array args))"
    then have "isIndexed h x" using assms by simp
    then show "(index_get (zip_heap h args i @ [Array acc]) x i, zip_heap h args i @ [Array acc]) =
               (Inr (elem_at (items h x) i), zip_heap h args i @ [Array acc])"
      by (simp add: index_get_input del: index_get.simps)
  qed
  then show ?thesis
    by (simp add: zip_heap_length tuple_at_def)
qed

lemma zip_loop_heap:
  assumes "\<forall>arg\<in>set args. isIndexed h arg"
  shows "i \<le> m \<Longrightarrow>
    zip_loop (Ref (length h)) (Suc (length h)) i m (zip_heap h args i) = (Inr (), zip_heap h args m)"
proof (induction "m - i" arbitrary: i)
  case 0
  then show ?case by (subst zip_loop.simps) simp
next
  case (Suc d)
  then have lt: "i < m" by simp
  have p: "push (Suc (length h)) (Ref (length h + 2 + i)) (zip_heap h args i @ [Array (tuple_at h args i)])
           = (Inr (), zip_heap h args (Suc i))"
    using zip_heap_Suc [of h args i] by (simp add: push_array [OF zip_heap_result])
  have "zip_loop (Ref (length h)) (Suc (length h)) (Suc i) m (zip_heap h args (Suc i))
        = (Inr (), zip_heap h args m)"
    using Suc.hyps(2) lt by (intro Suc.hyps(1)) auto
  then show ?case
    using lt p by (subst zip_loop.simps) (simp add: zip_row [OF assms])
qed

lemma zip_g_heap:
  assumes ne: "args \<noteq> []" and ix: "\<forall>arg\<in>set args. isIndexed h arg"
  shows "zip_g args h =
         (Inr (Ref (Suc (length h))), zip_heap h args (length (items h (hd args))))"
proof -
  from ne obtain x xs where args: "args = x # xs" by (cases args) auto
  from ix args have "isIndexed h x" by simp
  then obtain b ob where x: "x = Ref b" "lookup h b = Some ob" "is_seq ob"
    by (rule isIndexedE)
  have b: "b < length h" using x(2) by (simp add: lookup_def split: if_splits)
  have first: "index_get (h @ [Array args]) (Ref (length h)) 0 = Inr x"
    using args by (simp add: lookup_def)
  have len: "length_get (h @ [Array args]) x = Inr (num (length (seq_items ob)))"
    using x b by (simp add: length_get_seq lookup_append_old del: length_get.simps)
  have it: "items h (hd args) = seq_items ob"
    using args x by (simp add: items_def object_of_def)
  have z0: "h @ [Array args, Array []] = zip_heap h args 0"
    by (simp add: zip_heap_def)
  show ?thesis
    using first len it z0 zip_loop_heap [OF ix, of 0 "length (seq_items ob)"]
    by (simp add: zip_g_def toArray_def alloc_def and_then_def
        del: index_get.simps length_get.simps)
qed

text \<open>
  C5. For every list of \<open>N \<ge> 1\<close> indexed sequences, \<open>zip\<close> returns a new array of
  arrays whose length is the length of the first sequence, whatever the lengths of the
  others; the array at position \<open>j\<close> holds, for every input sequence in order, its element
  at position \<open>j\<close>, and \<open>undefined\<close> where that sequence is shorter than the first.
\<close>

theorem zip_first_length:
  assumes "arguments \<noteq> []" and "\<forall>arg\<in>set arguments. isIndexed h arg"
  shows "\<exists>r h'. zip_g arguments h = (Inr (Ref r), h') \<and>
           isArray h' (Ref r) \<and>
           length (items h' (Ref r)) = length (items h (hd arguments)) \<and>
           list_all (isArray h') (items h' (Ref r)) \<and>
           map (items h') (items h' (Ref r)) = zipped h arguments"
proof -
  let ?m = "length (items h (hd arguments))"
  let ?h' = "zip_heap h arguments ?m"
  have r: "lookup ?h' (Suc (length h)) = Some (Array (map (\<lambda>j. Ref (length h + 2 + j)) [0..<?m]))"
    using zip_heap_result [of h arguments ?m "[]"] by simp
  have it: "items ?h' (Ref (Suc (length h))) = map (\<lambda>j. Ref (length h + 2 + j)) [0..<?m]"
    using r by (simp add: items_def object_of_def)
  have rows: "\<And>j. j < ?m \<Longrightarrow> isArray ?h' (Ref (length h + 2 + j)) \<and>
                 items ?h' (Ref (length h + 2 + j)) = tuple_at h arguments j"
    using zip_heap_row [of _ ?m h arguments]
    by (simp add: isArray_def items_def object_of_def)
  have "isArray ?h' (Ref (Suc (length h)))"
    using r by (simp add: isArray_def)
  moreover have "list_all (isArray ?h') (items ?h' (Ref (Suc (length h))))"
    using rows by (simp add: it list_all_iff)
  moreover have "map (items ?h') (items ?h' (Ref (Suc (length h)))) = zipped h arguments"
    using rows by (simp add: it zipped_def)
  ultimately show ?thesis
    using zip_g_heap [OF assms] it by simp
qed

theorem zip_first_length_witness:
  "isIndexed [Array [num 1, num 2, num 3], Array [Str ''a'', Str ''b'']] (Ref 0) \<and>
   isIndexed [Array [num 1, num 2, num 3], Array [Str ''a'', Str ''b'']] (Ref 1) \<and>
   (\<exists>r h'. zip_g [Ref 0, Ref 1] [Array [num 1, num 2, num 3], Array [Str ''a'', Str ''b'']] =
             (Inr (Ref r), h') \<and>
           isArray h' (Ref r) \<and>
           length (items h' (Ref r)) = 3 \<and>
           list_all (isArray h') (items h' (Ref r)) \<and>
           map (items h') (items h' (Ref r)) =
             [[num 1, Str ''a''], [num 2, Str ''b''], [num 3, Undefined]])"
proof -
  let ?h = "[Array [num 1, num 2, num 3], Array [Str ''a'', Str ''b'']]"
  have i: "isIndexed ?h (Ref 0)" "isIndexed ?h (Ref 1)"
    by (simp_all add: isIndexed_iff object_of_def lookup_def)
  then have a: "\<forall>arg\<in>set [Ref 0, Ref 1]. isIndexed ?h arg"
    by simp
  have z: "zipped ?h [Ref 0, Ref 1] = [[num 1, Str ''a''], [num 2, Str ''b''], [num 3, Undefined]]"
    by (simp add: zipped_def tuple_at_def elem_at_def items_def object_of_def lookup_def upt_rec)
  have l: "length (items ?h (hd [Ref 0, Ref 1])) = 3"
    by (simp add: items_def object_of_def lookup_def)
  show ?thesis
    using i zip_first_length [of "[Ref 0, Ref 1]" ?h, OF _ a]
    unfolding z l by simp
qed

section \<open>What the collection functions leave untouched\<close>

lemma kept_refl: "kept n h h"
  by (simp add: kept_def)

lemma kept_trans: "kept n h h' \<Longrightarrow> kept n h' h'' \<Longrightarrow> kept n h h''"
  by (simp add: kept_def)

lemma kept_length: "kept n h h' \<Longrightarrow> n \<le> length h \<Longrightarrow> n \<le> length h'"
  by (simp add: kept_def)

lemma kept_update: "n \<le> r \<Longrightarrow> kept n h (h[r := ob])"
  by (simp add: kept_def)

lemma kept_append: "n \<le> length h \<Longrightarrow> kept n h (h @ hs)"
  by (simp add: kept_def)

lemma unchanged_kept: "unchanged h h' \<Longrightarrow> n \<le> length h \<Longrightarrow> kept n h h'"
  unfolding unchanged_def kept_def
  by (metis min.absorb1 take_take)

lemma push_kept: "n \<le> r \<Longrightarrow> kept n h (snd (push r v h))"
  by (auto simp: push_def kept_update kept_refl split: option.splits obj.splits)

lemma set_named_kept: "n \<le> r \<Longrightarrow> kept n h (snd (set_named r k v h))"
  by (auto simp: set_named_def kept_update kept_refl split: option.splits obj.splits)

lemma copy_props_kept: "n \<le> r \<Longrightarrow> kept n h (snd (copy_props r ps h))"
proof (induction ps arbitrary: h)
  case Nil
  show ?case by (simp add: kept_refl)
next
  case (Cons p ps)
  obtain k v where p: "p = (k, v)" by (cases p)
  show ?case
  proof (cases "set_named r k v h")
    case (Pair res h')
    have 1: "kept n h h'" using set_named_kept [OF Cons.prems, of h k v] Pair by simp
    show ?thesis
      using 1 kept_trans [OF 1 Cons.IH [OF Cons.prems, of h']] Pair p
      by (cases res) simp_all
  qed
qed

lemma and_then_kept:
  assumes "kept n h (snd m)" and "\<And>v. kept n (snd m) (snd (f v (snd m)))"
  shows "kept n h (snd (and_then m f))"
proof (cases m)
  case (Pair res h')
  show ?thesis
    using assms Pair by (cases res) (auto simp: and_then_def intro: kept_trans)
qed

lemma each_loop_kept:
  "(\<And>x k e' H. n \<le> length H \<Longrightarrow> kept n H (snd (func x k e' H))) \<Longrightarrow> n \<le> length h \<Longrightarrow>
   kept n h (snd (each_loop coll func i m e h))"
proof (induction coll func i m e h rule: each_loop.induct)
  case (1 coll func i len e h)
  note f = "1.prems"(1)
  show ?case
  proof (cases "i < len")
    case False
    then show ?thesis by (subst each_loop.simps) (simp add: kept_refl)
  next
    case True
    show ?thesis
    proof (cases "index_get h coll i")
      case (Inl err)
      then show ?thesis using True by (subst each_loop.simps) (simp add: kept_refl)
    next
      case (Inr item)
      show ?thesis
      proof (cases "func item (num i) e h")
        case (Pair res h')
        have k: "kept n h h'"
          using f [OF "1.prems"(2), of item "num i" e] Pair by simp
        show ?thesis
        proof (cases res)
          case (Inl err)
          then show ?thesis using True Inr Pair k by (subst each_loop.simps) simp
        next
          case r: (Inr e')
          have "kept n h' (snd (each_loop coll func (Suc i) len e' h'))"
            using "1.IH" [OF True Inr _ _ f] Pair r kept_length [OF k "1.prems"(2)] by simp
          then show ?thesis
            using True Inr Pair r k by (subst each_loop.simps) (auto intro: kept_trans)
        qed
      qed
    qed
  qed
qed

lemma each_kept:
  assumes "\<And>x k e' H. n \<le> length H \<Longrightarrow> kept n H (snd (func x k e' H))" and "n \<le> length h"
  shows "kept n h (snd (each coll func e h))"
proof (cases "isIndexed h coll")
  case False
  then show ?thesis by (simp add: each_not_indexed kept_refl)
next
  case True
  have "kept n h (snd (each_loop coll func 0 m e h))" for m
    by (rule each_loop_kept) (fact assms)+
  then show ?thesis
    using True by (auto simp: each_def kept_refl split: sum.splits)
qed

lemma each_result_kept:
  assumes "\<And>x k e' H. n \<le> length H \<Longrightarrow> kept n H (snd (func x k e' H))" and "n \<le> length h"
  shows "kept n h (snd (and_then (each coll func e h) (\<lambda>u h2. (Inr (g u), h2))))"
proof -
  have "kept n h (snd (each coll func e h))"
    by (rule each_kept) (fact assms)+
  then show ?thesis
    by (cases "each coll func e h") (auto simp: and_then_def split: sum.splits)
qed

lemma map_g_kept:
  assumes f: "\<And>x H. n \<le> length H \<Longrightarrow> kept n H (snd (f x H))" and n: "n \<le> length h"
  shows "kept n h (snd (map_g coll f h))"
proof -
  let ?step = "\<lambda>item i (u::unit) h'. and_then (f item h') (push (length h))"
  have step: "\<And>x k e' H. n \<le> length H \<Longrightarrow> kept n H (snd (?step x k e' H))"
  proof -
    fix x k :: val and e' :: unit and H :: heap
    assume H: "n \<le> length H"
    show "kept n H (snd (?step x k e' H))"
      using f [OF H, of x] n by (intro and_then_kept push_kept) auto
  qed
  have "kept n (h @ [Array []]) (snd (and_then (each coll ?step () (h @ [Array []]))
          (\<lambda>u h2. (Inr (Ref (length h)), h2))))"
    using n by (intro each_result_kept step) auto
  then show ?thesis
    using kept_append [OF n, of "[Array []]"] by (auto simp: map_g_def alloc_def intro: kept_trans)
qed

lemma filter_g_kept:
  assumes f: "\<And>x H. n \<le> length H \<Longrightarrow> kept n H (snd (pred x H))" and n: "n \<le> length h"
  shows "kept n h (snd (filter_g coll pred h))"
proof -
  let ?step = "\<lambda>item i (u::unit) h'.
      and_then (pred item h') (\<lambda>p h''. if truthy p then push (length h) item h'' else (Inr (), h''))"
  have step: "\<And>x k e' H. n \<le> length H \<Longrightarrow> kept n H (snd (?step x k e' H))"
  proof -
    fix x k :: val and e' :: unit and H :: heap
    assume H: "n \<le> length H"
    show "kept n H (snd (?step x k e' H))"
      using f [OF H, of x] n by (intro and_then_kept) (auto simp: push_kept kept_refl)
  qed
  have "kept n (h @ [Array []]) (snd (and_then (each coll ?step () (h @ [Array []]))
          (\<lambda>u h2. (Inr (Ref (length h)), h2))))"
    using n by (intro each_result_kept step) auto
  then show ?thesis
    using kept_append [OF n, of "[Array []]"]
    by (auto simp: filter_g_def alloc_def intro: kept_trans)
qed

lemma not_g_kept:
  assumes f: "\<And>x H. n \<le> length H \<Longrightarrow> kept n H (snd (pred x H))" and n: "n \<le> length h"
  shows "kept n h (snd (not_g coll pred h))"
  unfolding not_g_def
proof (rule filter_g_kept [OF _ n])
  fix x :: val and H :: heap
  assume "n \<le> length H"
  then show "kept n H (snd (and_then (pred x H) (\<lambda>p h''. (Inr (Bool (\<not> truthy p)), h''))))"
    using f [of H x] by (intro and_then_kept) (auto simp: kept_refl)
qed

lemma reduce_kept:
  assumes f: "\<And>acc x k H. n \<le> length H \<Longrightarrow> kept n H (snd (func acc x k H))"
    and n: "n \<le> length h"
  shows "kept n h (snd (reduce coll func seed h))"
proof -
  let ?step = "\<lambda>item i (noSeed, sd) h'.
                  if noSeed then (Inr (False, item), h')
                  else and_then (func sd item i h') (\<lambda>v h''. (Inr (noSeed, v), h''))"
  have step: "\<And>x k e' H. n \<le> length H \<Longrightarrow> kept n H (snd (?step x k e' H))"
  proof -
    fix x k :: val and e' :: "bool \<times> val" and H :: heap
    assume H: "n \<le> length H"
    obtain ns sd where e': "e' = (ns, sd)" by (cases e')
    have "kept n H (snd (and_then (func sd x k H) (\<lambda>v h''. (Inr (b, v), h''))))" for b
      using f [OF H, of sd x k] by (intro and_then_kept) (auto simp: kept_refl)
    then show "kept n H (snd (?step x k e' H))"
      using e' by (auto simp: kept_refl)
  qed
  have "kept n h (snd (and_then (each coll ?step e0 h) (\<lambda>(noSeed, sd) h'. (Inr sd, h'))))" for e0
  proof -
    have "kept n h (snd (each coll ?step e0 h))"
      using step n by (rule each_kept)
    then show ?thesis
      by (cases "each coll ?step e0 h") (auto simp: and_then_def split: sum.splits)
  qed
  then show ?thesis
    by (auto simp: reduce_def kept_refl split: sum.splits bool.splits)
qed

lemma where_g_kept: "n \<le> length h \<Longrightarrow> kept n h (snd (where_g coll crit h))"
  unfolding where_g_def by (rule filter_g_kept) (simp_all add: kept_refl)

lemma select_kept: "n \<le> length h \<Longrightarrow> kept n h (snd (select coll key h))"
  unfolding select_def by (rule map_g_kept) (simp_all add: kept_refl)

lemma zip_loop_kept: "n \<le> r \<Longrightarrow> n \<le> length h \<Longrightarrow> kept n h (snd (zip_loop args r i m h))"
proof (induction args r i m h rule: zip_loop.induct)
  case (1 args r i m h)
  show ?case
  proof (cases "i < m")
    case False
    then show ?thesis by (subst zip_loop.simps) (simp add: kept_refl)
  next
    case True
    let ?row = "map_g args (\<lambda>arr h'. (index_get h' arr i, h')) h"
    obtain res h1 where row: "?row = (res, h1)" by (cases ?row)
    have k1: "kept n h h1"
      using map_g_kept [of n "\<lambda>arr h'. (index_get h' arr i, h')" h args] "1.prems" row
      by (simp add: kept_refl)
    show ?thesis
    proof (cases res)
      case (Inl err)
      then show ?thesis using True row k1 by (subst zip_loop.simps) simp
    next
      case (Inr v)
      obtain res2 h2 where p: "push r v h1 = (res2, h2)" by (cases "push r v h1")
      have k2: "kept n h1 h2"
        using push_kept [OF "1.prems"(1), of h1 v] p by simp
      have k: "kept n h h2" using k1 k2 by (rule kept_trans)
      show ?thesis
      proof (cases res2)
        case (Inl err)
        then show ?thesis using True row Inr p k by (subst zip_loop.simps) simp
      next
        case r2: (Inr u)
        have "kept n h2 (snd (zip_loop args r (Suc i) m h2))"
          using "1.IH" [OF True _ _ _ _ "1.prems"(1)] row Inr p r2 kept_length [OF k "1.prems"(2)]
          by simp
        then show ?thesis
          using True row Inr p r2 k by (subst zip_loop.simps) (auto intro: kept_trans)
      qed
    qed
  qed
qed

lemma zip_g_kept:
  assumes n: "n \<le> length h"
  shows "kept n h (snd (zip_g arguments h))"
proof -
  have 1: "kept n h (h @ [Array arguments])"
    using n by (rule kept_append)
  have 2: "kept n h (h @ [Array arguments, Array []])"
    using kept_append [OF n, of "[Array arguments, Array []]"] by simp
  have 3: "kept n (h @ [Array arguments, Array []])
             (snd (zip_loop (Ref (length h)) (Suc (length h)) 0 m (h @ [Array arguments, Array []])))" for m
    using n by (intro zip_loop_kept) auto
  have "kept n h (snd (and_then (zip_loop (Ref (length h)) (Suc (length h)) 0 m (h @ [Array arguments, Array []]))
             (\<lambda>u h3. (Inr (Ref (Suc (length h))), h3))))" for m
    using kept_trans [OF 2 3 [of m]]
    by (cases "zip_loop (Ref (length h)) (Suc (length h)) 0 m (h @ [Array arguments, Array []])")
      (auto simp: and_then_def split: sum.splits)
  then show ?thesis
    using 1 2
    by (auto simp: zip_g_def toArray_def alloc_def split: sum.splits simp del: index_get.simps length_get.simps)
qed

lemma mixin_kept:
  assumes n: "n \<le> length h"
  shows "kept n h (snd (mixin arguments h))"
proof -
  let ?h2 = "h @ [Object [], Array arguments]"
  have 2: "kept n h ?h2"
    using n by (rule kept_append)
  have "kept n ?h2 (snd (and_then
          (each (Ref (Suc (length h))) (\<lambda>ob i (u::unit) h'. copy_props (length h) (own_props h' ob) h') () ?h2)
          (\<lambda>u h3. (Inr (Ref (length h)), h3))))"
    using n by (intro each_result_kept copy_props_kept) auto
  then show ?thesis
    using 2 by (auto simp: mixin_def toArray_def alloc_def intro: kept_trans)
qed

lemma clone_kept:
  assumes n: "n \<le> length h"
  shows "kept n h (snd (clone coll h))"
proof -
  have "kept n (h @ [Object []]) (snd (mixin [Ref (length h), coll] (h @ [Object []])))"
    using n by (intro mixin_kept) auto
  then have "kept n h (snd (mixin [Ref (length h), coll] (h @ [Object []])))"
    using kept_append [OF n, of "[Object []]"] by (auto intro: kept_trans)
  then show ?thesis
    using n by (auto simp: clone_def alloc_def kept_refl kept_append
        split: val.splits option.splits obj.splits)
qed

lemma each_loop_inv:
  "(\<And>x k e' H. P H \<Longrightarrow> P (snd (func x k e' H))) \<Longrightarrow> P h \<Longrightarrow>
   P (snd (each_loop coll func i m e h))"
proof (induction coll func i m e h rule: each_loop.induct)
  case (1 coll func i len e h)
  note f = "1.prems"(1)
  show ?case
  proof (cases "i < len")
    case False
    then show ?thesis using "1.prems"(2) by (subst each_loop.simps) simp
  next
    case True
    show ?thesis
    proof (cases "index_get h coll i")
      case (Inl err)
      then show ?thesis using True "1.prems"(2) by (subst each_loop.simps) simp
    next
      case (Inr item)
      show ?thesis
      proof (cases "func item (num i) e h")
        case (Pair res h')
        have k: "P h'"
          using f [OF "1.prems"(2), of item "num i" e] Pair by simp
        show ?thesis
        proof (cases res)
          case (Inl err)
          then show ?thesis using True Inr Pair k by (subst each_loop.simps) simp
        next
          case r: (Inr e')
          have "P (snd (each_loop coll func (Suc i) len e' h'))"
            using "1.IH" [OF True Inr _ _ f k] Pair r by simp
          then show ?thesis
            using True Inr Pair r by (subst each_loop.simps) simp
        qed
      qed
    qed
  qed
qed

lemma each_inv:
  assumes "\<And>x k e' H. P H \<Longrightarrow> P (snd (func x k e' H))" and "P h"
  shows "P (snd (each coll func e h))"
proof (cases "isIndexed h coll")
  case False
  then show ?thesis using assms(2) by (simp add: each_not_indexed)
next
  case True
  have "P (snd (each_loop coll func 0 m e h))" for m
    by (rule each_loop_inv) (fact assms)+
  then show ?thesis
    using True assms(2) by (auto simp: each_def split: sum.splits)
qed

lemma set_named_object: "is_object_at r h \<Longrightarrow> is_object_at r (snd (set_named r k v h))"
  by (auto simp: is_object_at_def set_named_def lookup_def split: if_splits option.splits obj.splits)

lemma copy_props_object: "is_object_at r h \<Longrightarrow> is_object_at r (snd (copy_props r ps h))"
proof (induction ps arbitrary: h)
  case Nil
  then show ?case by simp
next
  case (Cons p ps)
  obtain k v where p: "p = (k, v)" by (cases p)
  show ?case
  proof (cases "set_named r k v h")
    case (Pair res h')
    have 1: "is_object_at r h'" using set_named_object [OF Cons.prems, of k v] Pair by simp
    show ?thesis
      using 1 Cons.IH [OF 1] Pair p by (cases res) simp_all
  qed
qed

lemma mixin_new_object:
  assumes "fst (mixin arguments h) = Inr v"
  shows "v = Ref (length h) \<and> lookup h (length h) = None \<and>
         is_object_at (length h) (snd (mixin arguments h))"
proof -
  let ?h2 = "h @ [Object [], Array arguments]"
  let ?e = "each (Ref (Suc (length h)))
              (\<lambda>ob i (u::unit) h'. copy_props (length h) (own_props h' ob) h') () ?h2"
  have 0: "is_object_at (length h) ?h2"
    by (simp add: is_object_at_def lookup_def nth_append)
  have "is_object_at (length h) (snd ?e)"
    by (rule each_inv) (simp_all add: copy_props_object 0)
  then show ?thesis
    using assms
    by (cases ?e) (auto simp: mixin_def toArray_def alloc_def and_then_def lookup_def split: sum.splits)
qed

text \<open>
  C8. When the callbacks write to no object that exists when they are called (pure
  callbacks write to none at all), every object of the store is, after a call of
  \<open>each\<close>, \<open>map\<close>, \<open>filter\<close>, \<open>not\<close>, \<open>reduce\<close>, \<open>where\<close>, \<open>select\<close>, \<open>zip\<close>, \<open>mixin\<close> or
  \<open>clone\<close>, what it was before the call, whether the call returns or throws: the calls
  only add objects. What \<open>mixin\<close> returns is a plain object at an address that the store
  did not have before the call.
\<close>

theorem inputs_unchanged:
  assumes v: "\<And>x k e' H. unchanged H (snd (visit x k e' H))"
    and f: "\<And>x H. unchanged H (snd (func x H))"
    and g: "\<And>acc x k H. unchanged H (snd (func3 acc x k H))"
  shows "unchanged h (snd (each coll visit e h)) \<and>
         unchanged h (snd (map_g coll func h)) \<and>
         unchanged h (snd (filter_g coll func h)) \<and>
         unchanged h (snd (not_g coll func h)) \<and>
         unchanged h (snd (reduce coll func3 seed h)) \<and>
         unchanged h (snd (where_g coll crit h)) \<and>
         unchanged h (snd (select coll key h)) \<and>
         unchanged h (snd (zip_g arguments h)) \<and>
         unchanged h (snd (mixin arguments h)) \<and>
         unchanged h (snd (clone coll h)) \<and>
         (\<forall>r. fst (mixin arguments h) = Inr r \<longrightarrow>
              r = Ref (length h) \<and> lookup h (length h) = None \<and>
              is_object_at (length h) (snd (mixin arguments h)))"
proof -
  have v': "\<And>x k e' H. length h \<le> length H \<Longrightarrow> kept (length h) H (snd (visit x k e' H))"
    using v by (rule unchanged_kept)
  have f': "\<And>x H. length h \<le> length H \<Longrightarrow> kept (length h) H (snd (func x H))"
    using f by (rule unchanged_kept)
  have g': "\<And>acc x k H. length h \<le> length H \<Longrightarrow> kept (length h) H (snd (func3 acc x k H))"
    using g by (rule unchanged_kept)
  have "unchanged h (snd (each coll visit e h))"
    unfolding unchanged_def by (rule each_kept) (simp_all add: v')
  moreover have "unchanged h (snd (map_g coll func h))"
    unfolding unchanged_def by (rule map_g_kept) (simp_all add: f')
  moreover have "unchanged h (snd (filter_g coll func h))"
    unfolding unchanged_def by (rule filter_g_kept) (simp_all add: f')
  moreover have "unchanged h (snd (not_g coll func h))"
    unfolding unchanged_def by (rule not_g_kept) (simp_all add: f')
  moreover have "unchanged h (snd (reduce coll func3 seed h))"
    unfolding unchanged_def by (rule reduce_kept) (simp_all add: g')
  moreover have "unchanged h (snd (where_g coll crit h))"
    unfolding unchanged_def by (rule where_g_kept) simp
  moreover have "unchanged h (snd (select coll key h))"
    unfolding unchanged_def by (rule select_kept) simp
  moreover have "unchanged h (snd (zip_g arguments h))"
    unfolding unchanged_def by (rule zip_g_kept) simp
  moreover have "unchanged h (snd (mixin arguments h))"
    unfolding unchanged_def by (rule mixin_kept) simp
  moreover have "unchanged h (snd (clone coll h))"
    unfolding unchanged_def by (rule clone_kept) simp
  moreover have "\<forall>r. fst (mixin arguments h) = Inr r \<longrightarrow>
              r = Ref (length h) \<and> lookup h (length h) = None \<and>
              is_object_at (length h) (snd (mixin arguments h))"
    using mixin_new_object [of arguments h] by simp
  ultimately show ?thesis by blast
qed

theorem inputs_unchanged_witness:
  "unchanged example_store (snd (each (Ref 0) log_visit [] example_store)) \<and>
   unchanged example_store (snd (map_g (Ref 0) always_true example_store)) \<and>
   unchanged example_store (snd (filter_g (Ref 0) always_true example_store)) \<and>
   unchanged example_store (snd (not_g (Ref 0) always_true example_store)) \<and>
   unchanged example_store (snd (reduce (Ref 0) add_numbers None example_store)) \<and>
   unchanged example_store (snd (where_g (Ref 0) (Ref 1) example_store)) \<and>
   unchanged example_store (snd (select (Ref 0) (Str ''a'') example_store)) \<and>
   unchanged example_store (snd (zip_g [Ref 0, Ref 0] example_store)) \<and>
   unchanged example_store (snd (mixin [Ref 1, Ref 1] example_store)) \<and>
   unchanged example_store (snd (clone (Ref 0) example_store)) \<and>
   mixin [Ref 1, Ref 1] example_store =
     (Inr (Ref 2), example_store @ [Object [(''a'', num 1)], Array [Ref 1, Ref 1]])"
proof -
  have p1: "\<And>x k e' H. unchanged H (snd (log_visit x k e' H))"
    by (simp add: log_visit_def unchanged_def kept_def)
  have p2: "\<And>x H. unchanged H (snd (always_true x H))"
    by (simp add: always_true_def unchanged_def kept_def)
  have p3: "\<And>acc x k H. unchanged H (snd (add_numbers acc x k H))"
    by (simp add: add_numbers_def unchanged_def kept_def)
  have m: "mixin [Ref 1, Ref 1] example_store =
     (Inr (Ref 2), example_store @ [Object [(''a'', num 1)], Array [Ref 1, Ref 1]])"
    by (simp add: mixin_def example_store_def alloc_def toArray_def each_def isIndexed_def
        isArray_def lookup_def num_def each_loop.simps set_named_def and_then_def)
  show ?thesis
    using m inputs_unchanged [OF p1 p2 p3, where h = example_store and coll = "Ref 0"
        and e = "[]" and seed = None and crit = "Ref 1" and key = "Str ''a''"
        and arguments = "[Ref 1, Ref 1]"]
      inputs_unchanged [OF p1 p2 p3, where h = example_store and arguments = "[Ref 0, Ref 0]"]
    by simp
qed

end
